theory Spec2Isabelle
  imports Main "HOL-Library.Multiset" "HOL-Library.Sublist"
begin

section \<open>Strings and numbers of the platform\<close>

text \<open>
  A JavaScript string is a sequence of UTF-16 code units. The model covers the code units
  U+0000 .. U+00FF, one \<^typ>\<open>char\<close> each (ASCII and the Latin-1 supplement); \<open>length\<close> is
  then the \<open>.length\<close> of the source. Numbers that the code uses as indices, row numbers and
  date parts are integers far below \<open>2^53\<close>, so they are \<^typ>\<open>nat\<close> or \<^typ>\<open>int\<close>.
\<close>

definition isDigit :: "char \<Rightarrow> bool" where
  \<comment> \<open>the regular expression class \<open>\d\<close> (no unicode flag): \<open>0\<close> .. \<open>9\<close>\<close>
  "isDigit c = (48 \<le> (of_char c :: nat) \<and> (of_char c :: nat) \<le> 57)"

definition digitVal :: "char \<Rightarrow> nat" where
  "digitVal c = (of_char c :: nat) - 48"

definition digitChar :: "nat \<Rightarrow> char" where
  "digitChar d = char_of (48 + d)"

definition digitsToNumber :: "string \<Rightarrow> nat" where
  \<comment> \<open>\<open>Number(s)\<close> for a string of decimal digits\<close>
  "digitsToNumber s = foldl (\<lambda>n c. 10 * n + digitVal c) 0 s"

function toStringAcc :: "nat \<Rightarrow> string \<Rightarrow> string" where
  "toStringAcc n acc =
     (if n < 10 then digitChar n # acc
      else toStringAcc (n div 10) (digitChar (n mod 10) # acc))"
  by pat_completeness auto
termination
  by (relation "measure (\<lambda>(n, acc). n)") auto

definition toString :: "nat \<Rightarrow> string" where
  \<comment> \<open>\<open>String(n)\<close>, \<open>n.toString()\<close> and template interpolation of a natural number\<close>
  "toString n = toStringAcc n []"

definition fromCharCode :: "nat \<Rightarrow> char" where
  \<comment> \<open>\<open>String.fromCharCode(n)\<close> for a code unit below 256\<close>
  "fromCharCode n = char_of n"

definition padStart :: "nat \<Rightarrow> char \<Rightarrow> string \<Rightarrow> string" where
  \<comment> \<open>\<open>s.padStart(n, c)\<close> with a one-character filler\<close>
  "padStart n c s = replicate (n - length s) c @ s"

section \<open>Column addressing\<close>

text \<open>
  \<^verbatim>\<open>
  function columnLabel(n: number) {
    let x = n;
    let s = "";
    while (x > 0) {
      const m = (x - 1) % 26;
      s = String.fromCharCode(65 + m) + s;
      x = Math.floor((x - 1) / 26);
    }
    return s;
  }
  \<close>
\<close>

function columnLabelLoop :: "nat \<Rightarrow> string \<Rightarrow> string" where
  "columnLabelLoop x s =
     (if x > 0
      then (let m = (x - 1) mod 26 in columnLabelLoop ((x - 1) div 26) (fromCharCode (65 + m) # s))
      else s)"
  by pat_completeness auto
termination
  by (relation "measure (\<lambda>(x, s). x)") auto

definition columnLabel :: "nat \<Rightarrow> string" where
  "columnLabel n = columnLabelLoop n []"

text \<open>
  The value that bijective base 26 gives a label: the letters \<open>A\<close> .. \<open>Z\<close> are the digits
  1 .. 26, most significant first. It follows the words of the specification and is what
  \<^const>\<open>columnLabel\<close> is compared with.
\<close>

definition isUpperLetter :: "char \<Rightarrow> bool" where
  "isUpperLetter c = (65 \<le> (of_char c :: nat) \<and> (of_char c :: nat) \<le> 90)"

definition labelValue :: "string \<Rightarrow> nat" where
  "labelValue s = foldl (\<lambda>v c. 26 * v + ((of_char c :: nat) - 64)) 0 s"

section \<open>Name normalisation and fuzzy row lookup\<close>

text \<open>
  \<^verbatim>\<open>
  function normalizeName(raw: string) {
    return raw.trim().replace(/\s+/g, " ").toLocaleLowerCase();
  }
  \<close>
  White space of \<open>trim\<close> and of the class \<open>\s\<close> is, among the code units below 256, TAB, LF,
  VT, FF, CR, SPACE and NBSP. Lower-casing maps \<open>A\<close> .. \<open>Z\<close> and the Latin-1 capitals
  U+00C0 .. U+00DE (without the multiplication sign U+00D7) to the code unit 32 above, as
  \<open>toLocaleLowerCase\<close> does in a locale without special casing rules.
\<close>

definition isSpace :: "char \<Rightarrow> bool" where
  "isSpace c = ((of_char c :: nat) \<in> {9, 10, 11, 12, 13, 32, 160})"

definition trim :: "string \<Rightarrow> string" where
  "trim s = rev (dropWhile isSpace (rev (dropWhile isSpace s)))"

function collapseSpaces :: "string \<Rightarrow> string" where
  "collapseSpaces [] = []"
| "collapseSpaces (c # cs) =
     (if isSpace c then CHR '' '' # collapseSpaces (dropWhile isSpace cs)
      else c # collapseSpaces cs)"
  by pat_completeness auto
termination
  by (relation "measure length") (auto simp: less_Suc_eq_le length_dropWhile_le)

definition toLowerChar :: "char \<Rightarrow> char" where
  "toLowerChar c =
     (let n = (of_char c :: nat)
      in if (65 \<le> n \<and> n \<le> 90) \<or> (192 \<le> n \<and> n \<le> 222 \<and> n \<noteq> 215)
         then char_of (n + 32) else c)"

definition toLocaleLowerCase :: "string \<Rightarrow> string" where
  "toLocaleLowerCase s = map toLowerChar s"

definition normalizeName :: "string \<Rightarrow> string" where
  "normalizeName raw = toLocaleLowerCase (collapseSpaces (trim raw))"

fun includesStr :: "string \<Rightarrow> string \<Rightarrow> bool" where
  \<comment> \<open>\<open>hay.includes(needle)\<close>\<close>
  "includesStr [] needle = (needle = [])"
| "includesStr (c # cs) needle = (prefix needle (c # cs) \<or> includesStr cs needle)"

text \<open>
  A \<open>Map\<close> keeps its entries in insertion order; \<open>set\<close> on a key that is
  present replaces the value in place, on a new key it adds the entry at the end.
\<close>

type_synonym ('k, 'v) jsMap = "('k \<times> 'v) list"
type_synonym nameMap = "(string, nat) jsMap"

definition mapGet :: "('k, 'v) jsMap \<Rightarrow> 'k \<Rightarrow> 'v option" where
  "mapGet m k = map_of m k"

fun mapSet :: "('k, 'v) jsMap \<Rightarrow> 'k \<Rightarrow> 'v \<Rightarrow> ('k, 'v) jsMap" where
  "mapSet [] k v = [(k, v)]"
| "mapSet ((k', v') # m) k v = (if k' = k then (k, v) # m else (k', v') # mapSet m k v)"

text \<open>
  \<^verbatim>\<open>
  function findRowByName(nameToRow: Map<string, number>, inputName: string) {
    const normalizedInput = normalizeName(inputName);
    const exact = nameToRow.get(normalizedInput);
    if (exact != null) return exact;
    const partialMatches = [...nameToRow.entries()].filter(([existing]) =>
      existing.includes(normalizedInput) || normalizedInput.includes(existing),
    );
    if (partialMatches.length === 0) return null;
    // Prefer the closest-length partial match.
    partialMatches.sort(
      (a, b) => Math.abs(a[0].length - normalizedInput.length)
              - Math.abs(b[0].length - normalizedInput.length),
    );
    return partialMatches[0][1];
  }
  \<close>
  \<open>Array.prototype.sort\<close> is stable; \<^const>\<open>sort_key\<close> is the stable insertion sort.
\<close>

definition lengthDistance :: "string \<Rightarrow> string \<times> nat \<Rightarrow> int" where
  "lengthDistance normalizedInput a = \<bar>int (length (fst a)) - int (length normalizedInput)\<bar>"

definition partialMatches :: "nameMap \<Rightarrow> string \<Rightarrow> nameMap" where
  "partialMatches nameToRow normalizedInput =
     filter (\<lambda>(existing, r). includesStr existing normalizedInput \<or> includesStr normalizedInput existing)
       nameToRow"

definition findRowByName :: "nameMap \<Rightarrow> string \<Rightarrow> nat option" where
  "findRowByName nameToRow inputName =
     (let normalizedInput = normalizeName inputName
      in case mapGet nameToRow normalizedInput of
           Some exact \<Rightarrow> Some exact
         | None \<Rightarrow>
             (let matches = partialMatches nameToRow normalizedInput
              in if length matches = 0 then None
                 else Some (snd (sort_key (lengthDistance normalizedInput) matches ! 0))))"

section \<open>The ledger upsert\<close>

type_synonym row = "string list"
type_synonym sheet = "row list"

record CulvertScoreRow =
  name :: string
  culvert :: string

text \<open>One element of \<open>updates\<close>: the fields \<open>range\<close> and \<open>values\<close> of the source.\<close>

record ValueRange =
  rangeA1 :: string
  cellValues :: "string list list"

definition cellAt :: "row \<Rightarrow> nat \<Rightarrow> string" where
  \<comment> \<open>\<open>row?.[i] ?? ""\<close>: a cell that is missing reads as the empty string\<close>
  "cellAt r i = (if i < length r then r ! i else [])"

definition arraySet :: "row \<Rightarrow> nat \<Rightarrow> string \<Rightarrow> row" where
  \<comment> \<open>\<open>r[i] = v\<close>: an index past the end extends the array; the holes in between read as
      missing cells (the upsert only ever assigns at an index \<open>\<le> length r\<close>)\<close>
  "arraySet r i v = (if i < length r then r[i := v] else r @ replicate (i - length r) [] @ [v])"

fun findIndex :: "('a \<Rightarrow> bool) \<Rightarrow> 'a list \<Rightarrow> nat option" where
  \<comment> \<open>\<open>xs.findIndex(p)\<close>, with \<open>None\<close> for \<open>-1\<close>\<close>
  "findIndex p [] = None"
| "findIndex p (x # xs) = (if p x then Some 0 else map_option Suc (findIndex p xs))"

definition indexRow :: "sheet \<Rightarrow> nameMap \<Rightarrow> nat \<Rightarrow> nameMap" where
  \<comment> \<open>the body of the loop that fills \<open>nameToRow\<close>\<close>
  "indexRow vals m r =
     (let nm = normalizeName (cellAt (vals ! r) 0)
      in if nm \<noteq> [] then mapSet m nm r else m)"

definition buildNameToRow :: "sheet \<Rightarrow> nameMap" where
  \<comment> \<open>\<open>for (let r = 1; r < values.length; r++)\<close>\<close>
  "buildNameToRow vals = foldl (indexRow vals) [] [1 ..< length vals]"

definition upsertStep ::
  "string \<Rightarrow> nat \<Rightarrow> sheet \<times> nameMap \<times> ValueRange list \<Rightarrow> CulvertScoreRow
     \<Rightarrow> sheet \<times> nameMap \<times> ValueRange list" where
  \<comment> \<open>one iteration of \<open>for (const score of scores)\<close>\<close>
  "upsertStep sheetName dateCol st score =
     (case st of (vals, nameToRow, updates) \<Rightarrow>
        let normalizedScoreName = normalizeName (name score);
            (rowIdx, vals', nameToRow') =
              (case findRowByName nameToRow normalizedScoreName of
                 Some r \<Rightarrow> (r, vals, nameToRow)
               | None \<Rightarrow> (length vals, vals @ [[name score]],
                           mapSet nameToRow normalizedScoreName (length vals)))
        in (vals', nameToRow',
            updates @ [\<lparr>rangeA1 = sheetName @ ''!'' @ columnLabel (dateCol + 1) @ toString (rowIdx + 1),
                        cellValues = [[culvert score]]\<rparr>]))"

definition prepareHeader :: "sheet \<Rightarrow> string \<Rightarrow> nat \<times> sheet" where
  \<comment> \<open>lines 182-192: the header row is made to exist, to start with a name header, and to
      hold the date label; the result is \<open>dateCol\<close> and the updated \<open>values\<close>\<close>
  "prepareHeader existing dateLabel =
     (let vals0 = (if length existing = 0 then [[]] else existing);
          vals1 = (if cellAt (vals0 ! 0) 0 = [] then vals0[0 := arraySet (vals0 ! 0) 0 ''Name'']
                   else vals0);
          header = vals1 ! 0
      in case findIndex (\<lambda>v. v = dateLabel) header of
           Some i \<Rightarrow> (i, vals1)
         | None \<Rightarrow> (let dateCol = max 1 (length header)
                     in (dateCol, vals1[0 := arraySet header dateCol dateLabel])))"

definition upsertCulvertScoresByName ::
  "string \<Rightarrow> sheet \<Rightarrow> string \<Rightarrow> CulvertScoreRow list \<Rightarrow> (sheet \<times> ValueRange list) option" where
  \<comment> \<open>\<open>existing\<close> is what the store returned for \<open>A1:ZZ\<close> (\<open>existing.data.values ?? []\<close>);
      the result is the in-memory \<open>values\<close> at the end and the \<open>data\<close> of the batch update,
      or \<open>None\<close> when the function returns at once and sends nothing\<close>
  "upsertCulvertScoresByName sheetName existing dateLabel scores =
     (if length scores = 0 then None
      else
        (case prepareHeader existing dateLabel of (dateCol, vals) \<Rightarrow>
           (case foldl (upsertStep sheetName dateCol) (vals, buildNameToRow vals, []) scores of
              (vals', nameToRow', updates) \<Rightarrow>
                let names = map (\<lambda>r. [cellAt r 0]) (tl vals')
                in Some (vals',
                     updates @
                     [\<lparr>rangeA1 = sheetName @ ''!A1'', cellValues = [[''Name'']]\<rparr>,
                      \<lparr>rangeA1 = sheetName @ ''!'' @ columnLabel (dateCol + 1) @ ''1'',
                       cellValues = [[dateLabel]]\<rparr>,
                      \<lparr>rangeA1 = sheetName @ ''!A2:A'' @ toString (length names + 1),
                       cellValues = names\<rparr>]))))"

text \<open>A string that neither starts nor ends with white space (what \<open>trim\<close> returns).\<close>

definition edgesClean :: "string \<Rightarrow> bool" where
  "edgesClean s \<longleftrightarrow> s = [] \<or> (\<not> isSpace (hd s) \<and> \<not> isSpace (last s))"

text \<open>
  The normalized names that the data rows (rows \<open>\<ge> 1\<close>) hold in column 0, in row order, and
  the name of one row. A row without a first cell holds the empty name.
\<close>

definition dataNames :: "sheet \<Rightarrow> string list" where
  "dataNames vals = map (\<lambda>r. normalizeName (cellAt r 0)) (tl vals)"

definition rowKey :: "sheet \<Rightarrow> nat \<Rightarrow> string" where
  "rowKey vals r = normalizeName (cellAt (vals ! r) 0)"

text \<open>
  The normalized names that the data rows hold once the result of the upsert has reached the
  store. For an empty batch the function returns at once, nothing is sent and the rows are
  those of the snapshot. Otherwise the last write of the batch update rewrites the name
  column from row 2 on, one cell for each data row of \<open>values\<close>, so the names are the ones
  that this write carries.
\<close>

definition namesAfterUpsert :: "sheet \<Rightarrow> (sheet \<times> ValueRange list) option \<Rightarrow> string list" where
  "namesAfterUpsert existing res =
     (case res of
        None \<Rightarrow> dataNames existing
      | Some (vals', updates) \<Rightarrow>
          map (\<lambda>cells. normalizeName (cellAt cells 0)) (cellValues (last updates)))"

text \<open>
  The relation between \<open>values\<close> and \<open>nameToRow\<close> that the loops keep: the keys are distinct,
  every entry points at a data row with that normalized name, and every data row with a
  non-blank name is indexed.
\<close>

definition indexInvUpto :: "nat \<Rightarrow> sheet \<Rightarrow> nameMap \<Rightarrow> bool" where
  "indexInvUpto n vals m \<longleftrightarrow>
     distinct (map fst m)
     \<and> (\<forall>(k, r) \<in> set m. 1 \<le> r \<and> r < n \<and> rowKey vals r = k)
     \<and> (\<forall>r. 1 \<le> r \<and> r < n \<and> rowKey vals r \<noteq> [] \<longrightarrow> rowKey vals r \<in> fst ` set m)"

definition indexInv :: "sheet \<Rightarrow> nameMap \<Rightarrow> bool" where
  "indexInv vals m = indexInvUpto (length vals) vals m"

text \<open>The write of one entry: the cell of the date column in row \<open>rowIdx\<close>.\<close>

definition cellWrite :: "string \<Rightarrow> nat \<Rightarrow> nat \<Rightarrow> string \<Rightarrow> ValueRange" where
  "cellWrite sn dc rowIdx v =
     \<lparr>rangeA1 = sn @ ''!'' @ columnLabel (dc + 1) @ toString (rowIdx + 1), cellValues = [[v]]\<rparr>"

section \<open>Dates\<close>

text \<open>
  A \<open>Date\<close> object wraps a time value: the milliseconds since 1970-01-01T00:00:00Z. The
  functions below are the day and year arithmetic of the language standard (Day,
  DaysInYear, DayFromYear, YearFromTime, InLeapYear, MonthFromTime, DateFromTime, MakeDay,
  MakeDate), which \<open>Date.UTC\<close> and the \<open>getUTC...\<close> methods are defined by. The time values
  that the code builds stay far inside the range the standard allows, so the clipping of
  \<open>Date.UTC\<close> to that range is left out.
\<close>

datatype Date = Date (getTime: int)

definition msPerDay :: int where
  "msPerDay = 86400000"

definition Day :: "int \<Rightarrow> int" where
  "Day t = t div msPerDay"

definition DaysInYear :: "int \<Rightarrow> int" where
  "DaysInYear y =
     (if y mod 4 \<noteq> 0 then 365
      else if y mod 100 \<noteq> 0 then 366
      else if y mod 400 \<noteq> 0 then 365
      else 366)"

definition DayFromYear :: "int \<Rightarrow> int" where
  "DayFromYear y = 365 * (y - 1970) + (y - 1969) div 4 - (y - 1901) div 100 + (y - 1601) div 400"

function yearSearch :: "int \<Rightarrow> int \<Rightarrow> int" where
  \<comment> \<open>the largest \<open>y' \<ge> y\<close> with \<open>DayFromYear y' \<le> day\<close>, searched upwards\<close>
  "yearSearch day y = (if DayFromYear (y + 1) \<le> day then yearSearch day (y + 1) else y)"
  by pat_completeness auto
termination
proof (relation "measure (\<lambda>(day, y). nat (day - DayFromYear (y + 1) + 1))", goal_cases)
  case 1
  show ?case by simp
next
  case (2 day y)
  have a: "(y + 1 - 1969) div 4 \<le> (y + 1 + 1 - 1969) div 4"
    by (rule zdiv_mono1) simp_all
  have "(y + 1 + 1 - 1901) div 100 \<le> (y + 1 - 1901 + 100) div 100"
    by (rule zdiv_mono1) simp_all
  then have b: "(y + 1 + 1 - 1901) div 100 \<le> (y + 1 - 1901) div 100 + 1"
    by simp
  have c: "(y + 1 - 1601) div 400 \<le> (y + 1 + 1 - 1601) div 400"
    by (rule zdiv_mono1) simp_all
  have lin: "\<And>a a' b b' c c' :: int. a \<le> a' \<Longrightarrow> b' \<le> b + 1 \<Longrightarrow> c \<le> c' \<Longrightarrow>
      365 * (y + 1 - 1970) + a - b + c < 365 * (y + 1 + 1 - 1970) + a' - b' + c'"
    by simp
  have "DayFromYear (y + 1 + 1) > DayFromYear (y + 1)"
    unfolding DayFromYear_def using lin [OF a b c] by simp
  then show ?case using 2 by simp
qed

definition YearFromDay :: "int \<Rightarrow> int" where
  \<comment> \<open>the largest \<open>y\<close> with \<open>DayFromYear y \<le> day\<close>; the search starts at a year that is not
      after it, since a year has between 365 and 366 days\<close>
  "YearFromDay day =
     yearSearch day (1970 + (if 0 \<le> day then day div 366 else day div 365))"

definition YearFromTime :: "int \<Rightarrow> int" where
  "YearFromTime t = YearFromDay (Day t)"

definition InLeapYear :: "int \<Rightarrow> int" where
  "InLeapYear t = (if DaysInYear (YearFromTime t) = 365 then 0 else 1)"

definition DayWithinYear :: "int \<Rightarrow> int" where
  "DayWithinYear t = Day t - DayFromYear (YearFromTime t)"

definition MonthFromTime :: "int \<Rightarrow> int" where
  "MonthFromTime t =
     (let d = DayWithinYear t; leap = InLeapYear t
      in if d < 31 then 0
         else if d < 59 + leap then 1
         else if d < 90 + leap then 2
         else if d < 120 + leap then 3
         else if d < 151 + leap then 4
         else if d < 181 + leap then 5
         else if d < 212 + leap then 6
         else if d < 243 + leap then 7
         else if d < 273 + leap then 8
         else if d < 304 + leap then 9
         else if d < 334 + leap then 10
         else 11)"

definition monthStart :: "int \<Rightarrow> int \<Rightarrow> int" where
  \<comment> \<open>the day within the year on which month \<open>m\<close> (0 .. 11) starts\<close>
  "monthStart leap m =
     (if m = 0 then 0
      else if m = 1 then 31
      else [59, 90, 120, 151, 181, 212, 243, 273, 304, 334] ! nat (m - 2) + leap)"

definition DateFromTime :: "int \<Rightarrow> int" where
  "DateFromTime t = DayWithinYear t - monthStart (InLeapYear t) (MonthFromTime t) + 1"

definition MakeDay :: "int \<Rightarrow> int \<Rightarrow> int \<Rightarrow> int" where
  "MakeDay year month date =
     (let ym = year + month div 12; mn = month mod 12
      in DayFromYear ym + monthStart (if DaysInYear ym = 365 then 0 else 1) mn + date - 1)"

definition DateUTC :: "int \<Rightarrow> int \<Rightarrow> int \<Rightarrow> int" where
  \<comment> \<open>\<open>Date.UTC(year, month, date)\<close>; a year from 0 to 99 counts from 1900\<close>
  "DateUTC year month date =
     (let yr = (if 0 \<le> year \<and> year \<le> 99 then 1900 + year else year)
      in MakeDay yr month date * msPerDay)"

definition getUTCFullYear :: "Date \<Rightarrow> int" where
  "getUTCFullYear d = YearFromTime (getTime d)"

definition getUTCMonth :: "Date \<Rightarrow> int" where
  "getUTCMonth d = MonthFromTime (getTime d)"

definition getUTCDate :: "Date \<Rightarrow> int" where
  "getUTCDate d = DateFromTime (getTime d)"

text \<open>
  \<^verbatim>\<open>
  function isValidDateParts(year: number, month: number, day: number) {
    if (year < 1000 || year > 9999) return false;
    if (month < 1 || month > 12) return false;
    if (day < 1 || day > 31) return false;
    const parsed = new Date(Date.UTC(year, month - 1, day));
    return (
      parsed.getUTCFullYear() === year &&
      parsed.getUTCMonth() === month - 1 &&
      parsed.getUTCDate() === day
    );
  }
  \<close>
\<close>

definition isValidDateParts :: "nat \<Rightarrow> nat \<Rightarrow> nat \<Rightarrow> bool" where
  "isValidDateParts year month day =
     (if year < 1000 \<or> year > 9999 then False
      else if month < 1 \<or> month > 12 then False
      else if day < 1 \<or> day > 31 then False
      else (let parsed = Date (DateUTC (int year) (int month - 1) (int day))
            in getUTCFullYear parsed = int year
               \<and> getUTCMonth parsed = int month - 1
               \<and> getUTCDate parsed = int day))"

text \<open>
  The regular expressions \<open>/^(\d{1,2})\/(\d{1,2})\/(\d{2})$/\<close> and
  \<open>/^(\d{1,2})\/(\d{1,2})\/(\d{2}|\d{4})$/\<close>: one or two digits, a slash, one or two
  digits, a slash, and digits up to the end of the input, two of them (or two or four).
  A slash is no digit, so each group is the longest run of digits at its place.
\<close>

definition matchMDY :: "(nat \<Rightarrow> bool) \<Rightarrow> string \<Rightarrow> (string \<times> string \<times> string) option" where
  "matchMDY yearLength raw =
     (let g1 = takeWhile isDigit raw; r1 = dropWhile isDigit raw
      in if length g1 \<noteq> 1 \<and> length g1 \<noteq> 2 then None
         else (case r1 of
                 [] \<Rightarrow> None
               | c1 # r2 \<Rightarrow>
                   if c1 \<noteq> CHR ''/'' then None
                   else (let g2 = takeWhile isDigit r2; r3 = dropWhile isDigit r2
                         in if length g2 \<noteq> 1 \<and> length g2 \<noteq> 2 then None
                            else (case r3 of
                                    [] \<Rightarrow> None
                                  | c2 # g3 \<Rightarrow>
                                      if c2 \<noteq> CHR ''/'' then None
                                      else if list_all isDigit g3 \<and> yearLength (length g3)
                                           then Some (g1, g2, g3) else None))))"

text \<open>
  \<^verbatim>\<open>
  function parseN8nDate(raw: string): { isoDate: string; format: "MM/DD/YY" } | null {
    const match = raw.match(/^(\d{1,2})\/(\d{1,2})\/(\d{2})$/);
    if (!match) return null;
    const month = Number(match[1]);
    const day = Number(match[2]);
    const year = 2000 + Number(match[3]);
    if (!isValidDateParts(year, month, day)) return null;
    return {
      isoDate: `${year.toString().padStart(4, "0")}-${month.toString().padStart(2, "0")}-${
        day.toString().padStart(2, "0")}`,
      format: "MM/DD/YY",
    };
  }
  \<close>
\<close>

record N8nDate =
  isoDate :: string
  format :: string

definition isoString :: "nat \<Rightarrow> nat \<Rightarrow> nat \<Rightarrow> string" where
  \<comment> \<open>the template string of \<open>isoDate\<close>\<close>
  "isoString year month day =
     padStart 4 CHR ''0'' (toString year) @ ''-'' @ padStart 2 CHR ''0'' (toString month)
       @ ''-'' @ padStart 2 CHR ''0'' (toString day)"

definition parseN8nDate :: "string \<Rightarrow> N8nDate option" where
  "parseN8nDate raw =
     (case matchMDY (\<lambda>n. n = 2) raw of
        None \<Rightarrow> None
      | Some (g1, g2, g3) \<Rightarrow>
          (let month = digitsToNumber g1;
               day = digitsToNumber g2;
               year = 2000 + digitsToNumber g3
           in if \<not> isValidDateParts year month day then None
              else Some \<lparr>isoDate = isoString year month day, format = ''MM/DD/YY''\<rparr>))"

text \<open>
  \<^verbatim>\<open>
  function isoToSheetDateLabel(isoDate: string) {
    const match = isoDate.match(/^(\d{4})-(\d{2})-(\d{2})$/);
    if (!match) return isoDate;
    const month = String(Number(match[2]));
    const day = String(Number(match[3]));
    const year2 = String(Number(match[1]) % 100).padStart(2, "0");
    return `${month}/${day}/${year2}`;
  }
  \<close>
\<close>

definition matchISO :: "string \<Rightarrow> (string \<times> string \<times> string) option" where
  "matchISO s =
     (let g1 = take 4 s; g2 = take 2 (drop 5 s); g3 = drop 8 s
      in if length s = 10 \<and> s ! 4 = CHR ''-'' \<and> s ! 7 = CHR ''-''
            \<and> list_all isDigit g1 \<and> list_all isDigit g2 \<and> list_all isDigit g3
         then Some (g1, g2, g3) else None)"

definition isoToSheetDateLabel :: "string \<Rightarrow> string" where
  "isoToSheetDateLabel isoDateStr =
     (case matchISO isoDateStr of
        None \<Rightarrow> isoDateStr
      | Some (g1, g2, g3) \<Rightarrow>
          (let month = toString (digitsToNumber g2);
               day = toString (digitsToNumber g3);
               year2 = padStart 2 CHR ''0'' (toString (digitsToNumber g1 mod 100))
           in month @ ''/'' @ day @ ''/'' @ year2))"

text \<open>
  \<^verbatim>\<open>
  function parseSheetDate(raw: string) {
    const match = raw.trim().match(/^(\d{1,2})\/(\d{1,2})\/(\d{2}|\d{4})$/);
    if (!match) return null;
    const month = Number(match[1]);
    const day = Number(match[2]);
    const year = match[3].length === 2 ? 2000 + Number(match[3]) : Number(match[3]);
    if (!isValidDateParts(year, month, day)) return null;
    return new Date(Date.UTC(year, month - 1, day));
  }
  \<close>
\<close>

definition parseSheetDate :: "string \<Rightarrow> Date option" where
  "parseSheetDate raw =
     (case matchMDY (\<lambda>n. n = 2 \<or> n = 4) (trim raw) of
        None \<Rightarrow> None
      | Some (g1, g2, g3) \<Rightarrow>
          (let month = digitsToNumber g1;
               day = digitsToNumber g2;
               year = (if length g3 = 2 then 2000 + digitsToNumber g3 else digitsToNumber g3)
           in if \<not> isValidDateParts year month day then None
              else Some (Date (DateUTC (int year) (int month - 1) (int day)))))"

text \<open>
  The calendar, following the words of the specification ("February has no 30th"): the
  number of days of a month of the Gregorian calendar.
\<close>

definition isLeapYear :: "nat \<Rightarrow> bool" where
  "isLeapYear y = (y mod 4 = 0 \<and> (y mod 100 \<noteq> 0 \<or> y mod 400 = 0))"

definition daysInMonth :: "nat \<Rightarrow> nat \<Rightarrow> nat" where
  "daysInMonth y m =
     (if m = 2 then (if isLeapYear y then 29 else 28)
      else if m = 4 \<or> m = 6 \<or> m = 9 \<or> m = 11 then 30
      else 31)"

text \<open>The length of month \<open>m0\<close> (0 .. 11) in a year with \<open>leap\<close> (0 or 1) leap days.\<close>

definition monthLength :: "int \<Rightarrow> int \<Rightarrow> int" where
  "monthLength leap m0 =
     (if m0 = 1 then 28 + leap else if m0 = 3 \<or> m0 = 5 \<or> m0 = 8 \<or> m0 = 10 then 30 else 31)"

section \<open>Time series\<close>

text \<open>
  Scores are JavaScript numbers, that is IEEE doubles. The model leaves the number type
  open: \<open>'n\<close> is the type of numbers, \<open>toNumber\<close> stands for \<open>Number(s)\<close>, \<open>isFiniteNumber\<close> for
  \<open>Number.isFinite(x)\<close>, and in the cumulative sum \<open>add\<close> for \<open>+\<close> and \<open>zero\<close> for \<open>0\<close>. What is
  proved holds for every such interpretation, the doubles among them.

  \<^verbatim>\<open>
  function parseScore(raw: string) {
    const cleaned = raw.replace(/,/g, "").trim();
    if (!cleaned) return null;
    const value = Number(cleaned);
    return Number.isFinite(value) ? value : null;
  }
  \<close>
\<close>

definition parseScore :: "(string \<Rightarrow> 'n) \<Rightarrow> ('n \<Rightarrow> bool) \<Rightarrow> string \<Rightarrow> 'n option" where
  "parseScore toNumber isFiniteNumber raw =
     (let cleaned = trim (filter (\<lambda>c. c \<noteq> CHR '','') raw)
      in if cleaned = [] then None
         else (let v = toNumber cleaned
               in if isFiniteNumber v then Some v else None))"

definition normalizeUsername :: "string \<Rightarrow> string" where
  "normalizeUsername raw = toLocaleLowerCase (collapseSpaces (trim raw))"

text \<open>
  A point of a series: \<open>{label, date, value}\<close> in \<open>getUserPoints\<close> and \<open>{label, date, total}\<close>
  in the cumulative branch; the field \<open>val\<close> is the \<open>value\<close> or the \<open>total\<close>.
\<close>

record 'n Point =
  label :: string
  date :: Date
  val :: 'n

record 'n UserPoints =
  displayName :: string
  points :: "'n Point list"

text \<open>
  \<^verbatim>\<open>
  function getUserPoints(rows: string[][], username: string) {
    const normalizedInput = normalizeUsername(username);
    const header = rows[0] ?? [];
    const targetRow = rows
      .slice(1)
      .find((row) => normalizeUsername((row[0] ?? "").toString()) === normalizedInput);
    if (!targetRow) return null;
    const points: Array<{ label: string; date: Date; value: number }> = [];
    for (let col = 1; col < header.length; col++) {
      const label = (header[col] ?? "").toString().trim();
      const rawScore = (targetRow[col] ?? "").toString().trim();
      const date = parseSheetDate(label);
      const value = parseScore(rawScore);
      if (!date || value == null) continue;
      points.push({ label, date, value });
    }
    points.sort((a, b) => a.date.getTime() - b.date.getTime());
    return { displayName: String(targetRow[0]), points };
  }
  \<close>
\<close>

definition headerOf :: "sheet \<Rightarrow> row" where
  \<comment> \<open>\<open>rows[0] ?? []\<close>\<close>
  "headerOf rows = (case rows of [] \<Rightarrow> [] | h # rest \<Rightarrow> h)"

definition userPointAt ::
  "(string \<Rightarrow> 'n) \<Rightarrow> ('n \<Rightarrow> bool) \<Rightarrow> row \<Rightarrow> row \<Rightarrow> nat \<Rightarrow> 'n Point option" where
  \<comment> \<open>the body of the loop over the columns: the point that is pushed, if any\<close>
  "userPointAt toNumber isFiniteNumber header targetRow col =
     (let lbl = trim (cellAt header col);
          rawScore = trim (cellAt targetRow col)
      in case (parseSheetDate lbl, parseScore toNumber isFiniteNumber rawScore) of
           (Some d, Some v) \<Rightarrow> Some \<lparr>label = lbl, date = d, val = v\<rparr>
         | _ \<Rightarrow> None)"

definition sortByTime :: "'n Point list \<Rightarrow> 'n Point list" where
  \<comment> \<open>\<open>points.sort((a, b) => a.date.getTime() - b.date.getTime())\<close>, a stable sort\<close>
  "sortByTime ps = sort_key (\<lambda>p. getTime (date p)) ps"

definition getUserPoints ::
  "(string \<Rightarrow> 'n) \<Rightarrow> ('n \<Rightarrow> bool) \<Rightarrow> sheet \<Rightarrow> string \<Rightarrow> 'n UserPoints option" where
  "getUserPoints toNumber isFiniteNumber rows username =
     (let normalizedInput = normalizeUsername username;
          header = headerOf rows
      in case find (\<lambda>r. normalizeUsername (cellAt r 0) = normalizedInput) (tl rows) of
           None \<Rightarrow> None
         | Some targetRow \<Rightarrow>
             Some \<lparr>displayName = (if 0 < length targetRow then targetRow ! 0 else ''undefined''),
                   points = sortByTime
                     (List.map_filter (userPointAt toNumber isFiniteNumber header targetRow)
                        [1 ..< length header])\<rparr>)"

text \<open>
  The cumulative branch of the message handler, from the snapshot to the labels and values
  that go to the chart, or the reply that ends the command:
  \<^verbatim>\<open>
  if (rows.length < 2) { reply("Sheet does not have enough data ..."); return; }
  const header = rows[0] ?? [];
  const points = [];
  for (let col = 1; col < header.length; col++) {
    const label = (header[col] ?? "").toString().trim();
    const date = parseSheetDate(label);
    if (!date) continue;
    let total = 0;
    for (let rowIndex = 1; rowIndex < rows.length; rowIndex++) {
      const rawScore = (rows[rowIndex]?.[col] ?? "").toString().trim();
      const value = parseScore(rawScore);
      if (value != null) total += value;
    }
    points.push({ label, date, total });
  }
  if (points.length === 0) { reply("No dated score columns found in the sheet."); return; }
  points.sort((a, b) => a.date.getTime() - b.date.getTime());
  const labels = points.map((p) => p.label);
  const values = points.map((p) => p.total);
  \<close>
\<close>

definition columnTotal ::
  "(string \<Rightarrow> 'n) \<Rightarrow> ('n \<Rightarrow> bool) \<Rightarrow> ('n \<Rightarrow> 'n \<Rightarrow> 'n) \<Rightarrow> 'n \<Rightarrow> sheet \<Rightarrow> nat \<Rightarrow> 'n" where
  \<comment> \<open>the inner loop over the rows\<close>
  "columnTotal toNumber isFiniteNumber add zero rows col =
     foldl (\<lambda>total rowIndex.
              case parseScore toNumber isFiniteNumber (trim (cellAt (rows ! rowIndex) col)) of
                None \<Rightarrow> total
              | Some v \<Rightarrow> add total v)
       zero [1 ..< length rows]"

definition cumulativePointAt ::
  "(string \<Rightarrow> 'n) \<Rightarrow> ('n \<Rightarrow> bool) \<Rightarrow> ('n \<Rightarrow> 'n \<Rightarrow> 'n) \<Rightarrow> 'n \<Rightarrow> sheet \<Rightarrow> nat
     \<Rightarrow> 'n Point option" where
  \<comment> \<open>the body of the loop over the columns\<close>
  "cumulativePointAt toNumber isFiniteNumber add zero rows col =
     (let lbl = trim (cellAt (headerOf rows) col)
      in case parseSheetDate lbl of
           None \<Rightarrow> None
         | Some d \<Rightarrow>
             Some \<lparr>label = lbl, date = d,
                   val = columnTotal toNumber isFiniteNumber add zero rows col\<rparr>)"

definition cumulativePoints ::
  "(string \<Rightarrow> 'n) \<Rightarrow> ('n \<Rightarrow> bool) \<Rightarrow> ('n \<Rightarrow> 'n \<Rightarrow> 'n) \<Rightarrow> 'n \<Rightarrow> sheet \<Rightarrow> 'n Point list" where
  \<comment> \<open>\<open>points\<close> before it is sorted\<close>
  "cumulativePoints toNumber isFiniteNumber add zero rows =
     List.map_filter (cumulativePointAt toNumber isFiniteNumber add zero rows)
       [1 ..< length (headerOf rows)]"

definition cumulative ::
  "(string \<Rightarrow> 'n) \<Rightarrow> ('n \<Rightarrow> bool) \<Rightarrow> ('n \<Rightarrow> 'n \<Rightarrow> 'n) \<Rightarrow> 'n \<Rightarrow> sheet
     \<Rightarrow> string + (string list \<times> 'n list)" where
  \<comment> \<open>\<open>Inl\<close> is the reply that ends the command, \<open>Inr\<close> the labels and values of the chart\<close>
  "cumulative toNumber isFiniteNumber add zero rows =
     (if length rows < 2
      then Inl ''Sheet does not have enough data to build a cumulative chart yet.''
      else (let pts = cumulativePoints toNumber isFiniteNumber add zero rows
            in if length pts = 0 then Inl ''No dated score columns found in the sheet.''
               else (let sorted = sortByTime pts
                     in Inr (map label sorted, map val sorted))))"

text \<open>
  The alignment of two series in the compare branch:
  \<^verbatim>\<open>
  const dateMap = new Map<number, string>();
  for (const p of userA.points) dateMap.set(p.date.getTime(), p.label);
  for (const p of userB.points) dateMap.set(p.date.getTime(), p.label);
  const times = [...dateMap.keys()].sort((a, b) => a - b);
  const labels = times.map((t) => dateMap.get(t) ?? "");
  const aValueMap = new Map(userA.points.map((p) => [p.date.getTime(), p.value]));
  const bValueMap = new Map(userB.points.map((p) => [p.date.getTime(), p.value]));
  const seriesA = times.map((t) => (aValueMap.has(t) ? aValueMap.get(t)! : null));
  const seriesB = times.map((t) => (bValueMap.has(t) ? bValueMap.get(t)! : null));
  \<close>
  The absent marker \<open>null\<close> is \<open>None\<close>.
\<close>

definition setAll :: "('k, 'v) jsMap \<Rightarrow> ('k \<times> 'v) list \<Rightarrow> ('k, 'v) jsMap" where
  \<comment> \<open>\<open>set\<close> for each entry in turn; \<open>new Map(entries)\<close> is \<open>setAll [] entries\<close>\<close>
  "setAll m entries = foldl (\<lambda>m (k, v). mapSet m k v) m entries"

definition dateMapOf :: "'n Point list \<Rightarrow> 'n Point list \<Rightarrow> (int, string) jsMap" where
  "dateMapOf pointsA pointsB =
     setAll (setAll [] (map (\<lambda>p. (getTime (date p), label p)) pointsA))
       (map (\<lambda>p. (getTime (date p), label p)) pointsB)"

definition alignTimes :: "'n Point list \<Rightarrow> 'n Point list \<Rightarrow> int list" where
  "alignTimes pointsA pointsB = sort (map fst (dateMapOf pointsA pointsB))"

definition valueMapOf :: "'n Point list \<Rightarrow> (int, 'n) jsMap" where
  "valueMapOf ps = setAll [] (map (\<lambda>p. (getTime (date p), val p)) ps)"

definition alignSeries ::
  "'n Point list \<Rightarrow> 'n Point list \<Rightarrow> string list \<times> 'n option list \<times> 'n option list" where
  "alignSeries pointsA pointsB =
     (let dateMap = dateMapOf pointsA pointsB;
          times = alignTimes pointsA pointsB;
          labels = map (\<lambda>t. case mapGet dateMap t of Some l \<Rightarrow> l | None \<Rightarrow> []) times;
          aValueMap = valueMapOf pointsA;
          bValueMap = valueMapOf pointsB;
          seriesA = map (\<lambda>t. mapGet aValueMap t) times;
          seriesB = map (\<lambda>t. mapGet bValueMap t) times
      in (labels, seriesA, seriesB))"

text \<open>
  An interpretation of the numbers for the examples: a string of decimal digits is its
  value, every other string is not a number (\<open>None\<close>, which is not finite), and a sum with
  something that is not a number is not a number.
\<close>

definition exampleNumber :: "string \<Rightarrow> int option" where
  "exampleNumber s = (if s \<noteq> [] \<and> list_all isDigit s then Some (int (digitsToNumber s)) else None)"

definition exampleFinite :: "int option \<Rightarrow> bool" where
  "exampleFinite x = (x \<noteq> None)"

definition exampleAdd :: "int option \<Rightarrow> int option \<Rightarrow> int option" where
  "exampleAdd a b = (case (a, b) of (Some x, Some y) \<Rightarrow> Some (x + y) | _ \<Rightarrow> None)"

declare columnLabelLoop.simps [simp del]
declare toStringAcc.simps [simp del]
declare yearSearch.simps [simp del]

section \<open>Facts about column addressing\<close>

lemma columnLabelLoop_append: "columnLabelLoop x s = columnLabelLoop x [] @ s"
proof (induction x arbitrary: s rule: less_induct)
  case (less x)
  show ?case
  proof (cases "x > 0")
    case False
    then show ?thesis by (simp add: columnLabelLoop.simps)
  next
    case True
    let ?c = "fromCharCode (65 + (x - 1) mod 26)"
    have "(x - 1) div 26 \<le> x - 1" by (rule div_le_dividend)
    then have lt: "(x - 1) div 26 < x" using True by linarith
    have "columnLabelLoop x s = columnLabelLoop ((x - 1) div 26) (?c # s)"
      using True by (subst columnLabelLoop.simps) (simp add: Let_def)
    also have "\<dots> = columnLabelLoop ((x - 1) div 26) [] @ (?c # s)"
      using less.IH [OF lt] .
    also have "\<dots> = (columnLabelLoop ((x - 1) div 26) [] @ [?c]) @ s"
      by simp
    also have "columnLabelLoop ((x - 1) div 26) [] @ [?c] = columnLabelLoop ((x - 1) div 26) [?c]"
      using less.IH [OF lt, of "[?c]"] by simp
    also have "columnLabelLoop ((x - 1) div 26) [?c] = columnLabelLoop x []"
      using True by (subst (2) columnLabelLoop.simps) (simp add: Let_def)
    finally show ?thesis .
  qed
qed

lemma columnLabel_0: "columnLabel 0 = []"
  by (simp add: columnLabel_def columnLabelLoop.simps)

lemma columnLabel_Suc:
  "columnLabel (Suc n) = columnLabel (n div 26) @ [fromCharCode (65 + n mod 26)]"
proof -
  have "columnLabel (Suc n) = columnLabelLoop (n div 26) [fromCharCode (65 + n mod 26)]"
    unfolding columnLabel_def by (subst columnLabelLoop.simps) (simp add: Let_def)
  then show ?thesis
    unfolding columnLabel_def using columnLabelLoop_append [of "n div 26" "[fromCharCode (65 + n mod 26)]"]
    by simp
qed

lemma of_char_letter: "m < 26 \<Longrightarrow> (of_char (fromCharCode (65 + m)) :: nat) = 65 + m"
  by (simp add: fromCharCode_def)

lemma labelValue_snoc: "labelValue (s @ [c]) = 26 * labelValue s + ((of_char c :: nat) - 64)"
  by (simp add: labelValue_def)

lemma labelValue_columnLabel: "labelValue (columnLabel n) = n"
proof (induction n rule: less_induct)
  case (less n)
  show ?case
  proof (cases n)
    case 0
    then show ?thesis by (simp add: columnLabel_0 labelValue_def)
  next
    case (Suc k)
    have lt: "k div 26 < n" using Suc by (simp add: less_Suc_eq_le div_le_dividend)
    have "labelValue (columnLabel (Suc k)) = 26 * labelValue (columnLabel (k div 26)) + (65 + k mod 26 - 64)"
      by (simp add: columnLabel_Suc labelValue_snoc of_char_letter)
    also have "\<dots> = 26 * (k div 26) + (k mod 26 + 1)"
      using less.IH [OF lt] by simp
    also have "\<dots> = Suc k" by simp
    finally show ?thesis using Suc by simp
  qed
qed

lemma columnLabel_letters: "\<forall>c \<in> set (columnLabel n). isUpperLetter c"
proof (induction n rule: less_induct)
  case (less n)
  show ?case
  proof (cases n)
    case 0
    then show ?thesis by (simp add: columnLabel_0)
  next
    case (Suc k)
    have lt: "k div 26 < n" using Suc by (simp add: less_Suc_eq_le div_le_dividend)
    have "isUpperLetter (fromCharCode (65 + k mod 26))"
      by (simp add: isUpperLetter_def of_char_letter)
    then show ?thesis using less.IH [OF lt] Suc by (simp add: columnLabel_Suc)
  qed
qed

lemma columnLabel_labelValue:
  "\<forall>c \<in> set s. isUpperLetter c \<Longrightarrow> columnLabel (labelValue s) = s"
proof (induction s rule: rev_induct)
  case Nil
  then show ?case by (simp add: labelValue_def columnLabel_0)
next
  case (snoc c s)
  define d where "d = (of_char c :: nat) - 65"
  have c: "65 \<le> (of_char c :: nat)" "(of_char c :: nat) \<le> 90"
    using snoc.prems by (simp_all add: isUpperLetter_def)
  have d: "d < 26" "(of_char c :: nat) = 65 + d" using c by (simp_all add: d_def)
  have cc: "fromCharCode (65 + d) = c"
    using d(2) unfolding fromCharCode_def by (metis char_of_char)
  have "labelValue (s @ [c]) = Suc (26 * labelValue s + d)"
    using d by (simp add: labelValue_snoc)
  moreover have "(26 * labelValue s + d) div 26 = labelValue s" using d(1) by simp
  moreover have "(26 * labelValue s + d) mod 26 = d" using d(1) by simp
  ultimately have "columnLabel (labelValue (s @ [c])) = columnLabel (labelValue s) @ [fromCharCode (65 + d)]"
    by (simp add: columnLabel_Suc)
  then show ?case using snoc cc by simp
qed

text \<open>
  C9. \<open>columnLabel\<close> is bijective base-26 addressing: a positive \<open>n\<close> gets the label of
  \<open>floor((n-1)/26)\<close> followed by the letter number \<open>(n-1) mod 26\<close>; every label consists of
  the letters A .. Z only (no zero digit) and its base-26 value with A=1 .. Z=26 is \<open>n\<close>
  again; every word over A .. Z is the label of its value; and 1, 26, 27, 52, 702 are
  labelled A, Z, AA, AZ, ZZ.
\<close>

theorem columnLabel_bijective_base26:
  "(0 < n \<longrightarrow> columnLabel n = columnLabel ((n - 1) div 26) @ [fromCharCode (65 + (n - 1) mod 26)])
   \<and> (0 < n \<longrightarrow> columnLabel n \<noteq> [])
   \<and> (\<forall>c \<in> set (columnLabel n). isUpperLetter c)
   \<and> labelValue (columnLabel n) = n
   \<and> ((\<forall>c \<in> set s. isUpperLetter c) \<longrightarrow> columnLabel (labelValue s) = s)
   \<and> columnLabel 1 = ''A'' \<and> columnLabel 26 = ''Z'' \<and> columnLabel 27 = ''AA''
   \<and> columnLabel 52 = ''AZ'' \<and> columnLabel 702 = ''ZZ''"
proof -
  have step: "0 < n \<longrightarrow> columnLabel n = columnLabel ((n - 1) div 26) @ [fromCharCode (65 + (n - 1) mod 26)]"
    using columnLabel_Suc [of "n - 1"] by (cases n) simp_all
  have ne: "0 < n \<longrightarrow> columnLabel n \<noteq> []"
    using step by auto
  have e1: "columnLabel 1 = ''A''" by code_simp
  have e26: "columnLabel 26 = ''Z''" by code_simp
  have e27: "columnLabel 27 = ''AA''" by code_simp
  have e52: "columnLabel 52 = ''AZ''" by code_simp
  have e702: "columnLabel 702 = ''ZZ''" by code_simp
  show ?thesis
    using step ne columnLabel_letters [of n] labelValue_columnLabel [of n]
      columnLabel_labelValue [of s] e1 e26 e27 e52 e702
    by blast
qed

theorem columnLabel_bijective_base26_witness:
  "columnLabel 703 = columnLabel 27 @ ''A'' \<and> labelValue (columnLabel 703) = 703
   \<and> columnLabel (labelValue ''ZZ'') = ''ZZ''"
proof -
  note inst = columnLabel_bijective_base26 [of 703 "''ZZ''"]
  have l: "\<forall>c \<in> set ''ZZ''. isUpperLetter c" by (simp add: isUpperLetter_def)
  have m: "fromCharCode (65 + (703 - 1) mod 26) = CHR ''A''" by code_simp
  have d: "(703 - 1) div 26 = (27::nat)" by simp
  have p: "0 < (703::nat)" by simp
  have "columnLabel 703 = columnLabel ((703 - 1) div 26) @ [fromCharCode (65 + (703 - 1) mod 26)]"
    using inst p by blast
  then have a: "columnLabel 703 = columnLabel 27 @ ''A''" unfolding m d .
  have b: "labelValue (columnLabel 703) = 703" using inst by blast
  have c: "columnLabel (labelValue ''ZZ'') = ''ZZ''" using inst l by blast
  show ?thesis using a b c by blast
qed

section \<open>Facts about the fuzzy row lookup\<close>

lemma includesStr_sublist: "includesStr hay needle \<longleftrightarrow> sublist needle hay"
proof (induction hay)
  case Nil
  then show ?case by auto
next
  case (Cons c cs)
  then show ?case by (simp add: sublist_Cons_right)
qed

lemma partialMatches_set:
  "(k, r) \<in> set (partialMatches m n) \<longleftrightarrow> (k, r) \<in> set m \<and> (sublist n k \<or> sublist k n)"
  by (auto simp: partialMatches_def includesStr_sublist)

lemma sort_key_first_minimal:
  assumes "xs \<noteq> []"
  shows "sort_key f xs ! 0 \<in> set xs \<and> (\<forall>x \<in> set xs. f (sort_key f xs ! 0) \<le> f x)"
proof -
  let ?s = "sort_key f xs"
  have ne: "?s \<noteq> []" using assms by (metis length_0_conv length_sort)
  then obtain y ys where s: "?s = y # ys" by (cases ?s) auto
  have "sorted (map f ?s)" by simp
  then have "\<forall>x \<in> set ys. f y \<le> f x" unfolding s by simp
  then have "\<forall>x \<in> set ?s. f y \<le> f x" unfolding s by simp
  moreover have "y \<in> set ?s" unfolding s by simp
  ultimately show ?thesis using s by (metis nth_Cons_0 set_sort)
qed

lemma findRowByName_exact:
  "mapGet m (normalizeName i) = Some r \<Longrightarrow> findRowByName m i = Some r"
  by (simp add: findRowByName_def)

lemma findRowByName_none:
  "mapGet m (normalizeName i) = None \<Longrightarrow> partialMatches m (normalizeName i) = [] \<Longrightarrow>
   findRowByName m i = None"
  by (simp add: findRowByName_def)

lemma findRowByName_closest:
  assumes "mapGet m (normalizeName i) = None" "partialMatches m (normalizeName i) \<noteq> []"
  shows "\<exists>k r. (k, r) \<in> set (partialMatches m (normalizeName i)) \<and> findRowByName m i = Some r
           \<and> (\<forall>(k', r') \<in> set (partialMatches m (normalizeName i)).
                 \<bar>int (length k) - int (length (normalizeName i))\<bar>
                 \<le> \<bar>int (length k') - int (length (normalizeName i))\<bar>)"
proof -
  let ?n = "normalizeName i"
  let ?ms = "partialMatches m ?n"
  let ?b = "sort_key (lengthDistance ?n) ?ms ! 0"
  have res: "findRowByName m i = Some (snd ?b)"
    using assms by (simp add: findRowByName_def Let_def)
  have b: "?b \<in> set ?ms" "\<forall>x \<in> set ?ms. lengthDistance ?n ?b \<le> lengthDistance ?n x"
    using sort_key_first_minimal [OF assms(2), of "lengthDistance ?n"] by blast+
  have "(fst ?b, snd ?b) \<in> set ?ms" using b(1) by simp
  moreover have "\<forall>(k', r') \<in> set ?ms. \<bar>int (length (fst ?b)) - int (length ?n)\<bar>
                 \<le> \<bar>int (length k') - int (length ?n)\<bar>"
    using b(2) by (auto simp: lengthDistance_def)
  ultimately show ?thesis using res by blast
qed

text \<open>
  C1. \<open>findRowByName\<close> follows the two-phase policy. With \<open>n\<close> the normalized input: an exact
  entry for \<open>n\<close> is returned. Without one, the candidates are exactly the entries whose name
  contains \<open>n\<close> as a substring or is contained in \<open>n\<close> (\<^term>\<open>sublist a b\<close> says that \<open>b\<close> is
  \<open>p @ a @ q\<close> for some \<open>p\<close> and \<open>q\<close>); with no candidate the result is none, otherwise it is
  the row of a candidate whose length is closest to the length of \<open>n\<close>. With the rows
  "jon smith" (length 9) and "jonathan" (length 8), the input "jon" (length 3) resolves to
  the row of "jonathan".
\<close>

section \<open>The upsert on an empty snapshot\<close>

text \<open>
  C3. On an empty snapshot, the entry \<open>{name: "Alice", culvert: "100"}\<close> and the date label
  "3/1/24" give the header row \<open>["Name", "3/1/24"]\<close> with the label at column index 1 (column
  B), one new data row \<open>["Alice"]\<close> at row index 1 (sheet row 2), the write of "100" at B2,
  and then the writes of the name header at A1, of the date label at B1 and of the whole
  name column at A2:A2.
\<close>

theorem upsert_empty_snapshot_example:
  "upsertCulvertScoresByName sheetName [] ''3/1/24'' [\<lparr>name = ''Alice'', culvert = ''100''\<rparr>]
   = Some ([[''Name'', ''3/1/24''], [''Alice'']],
           [\<lparr>rangeA1 = sheetName @ ''!B2'', cellValues = [[''100'']]\<rparr>,
            \<lparr>rangeA1 = sheetName @ ''!A1'', cellValues = [[''Name'']]\<rparr>,
            \<lparr>rangeA1 = sheetName @ ''!B1'', cellValues = [[''3/1/24'']]\<rparr>,
            \<lparr>rangeA1 = sheetName @ ''!A2:A2'', cellValues = [[''Alice'']]\<rparr>])
   \<and> findIndex (\<lambda>v. v = ''3/1/24'') [''Name'', ''3/1/24''] = Some 1
   \<and> columnLabel (1 + 1) = ''B'' \<and> toString (1 + 1) = ''2''"
proof -
  have n: "normalizeName ''Alice'' = ''alice''" by code_simp
  have f: "findRowByName [] ''alice'' = None" by code_simp
  have c: "columnLabel (Suc (Suc 0)) = ''B''" by code_simp
  have t: "toString (Suc (Suc 0)) = ''2''" by code_simp
  have h: "prepareHeader [] ''3/1/24'' = (1, [[''Name'', ''3/1/24'']])"
    by (simp add: prepareHeader_def cellAt_def arraySet_def)
  have b: "buildNameToRow [[''Name'', ''3/1/24'']] = []"
    by (simp add: buildNameToRow_def)
  have s: "upsertStep sheetName (Suc 0) ([[''Name'', ''3/1/24'']], [], [])
             \<lparr>name = ''Alice'', culvert = ''100''\<rparr>
        = ([[''Name'', ''3/1/24''], [''Alice'']], [(''alice'', 1)],
           [\<lparr>rangeA1 = sheetName @ ''!B2'', cellValues = [[''100'']]\<rparr>])"
    by (simp add: upsertStep_def n f c t)
  show ?thesis
    by (simp add: upsertCulvertScoresByName_def h b s cellAt_def c t)
qed

theorem findRowByName_two_phase:
  "(\<forall>r. mapGet m (normalizeName i) = Some r \<longrightarrow> findRowByName m i = Some r)
   \<and> (mapGet m (normalizeName i) = None \<longrightarrow>
        (\<forall>k r. (k, r) \<in> set (partialMatches m (normalizeName i))
                \<longleftrightarrow> (k, r) \<in> set m \<and> (sublist (normalizeName i) k \<or> sublist k (normalizeName i)))
        \<and> (partialMatches m (normalizeName i) = [] \<longrightarrow> findRowByName m i = None)
        \<and> (partialMatches m (normalizeName i) \<noteq> [] \<longrightarrow>
             (\<exists>k r. (k, r) \<in> set (partialMatches m (normalizeName i))
                \<and> findRowByName m i = Some r
                \<and> (\<forall>(k', r') \<in> set (partialMatches m (normalizeName i)).
                      \<bar>int (length k) - int (length (normalizeName i))\<bar>
                      \<le> \<bar>int (length k') - int (length (normalizeName i))\<bar>))))
   \<and> length ''jon smith'' = 9 \<and> length ''jonathan'' = 8 \<and> length (normalizeName ''jon'') = 3
   \<and> findRowByName [(''jon smith'', 1), (''jonathan'', 2)] ''jon'' = Some 2"
proof -
  have ex: "findRowByName [(''jon smith'', 1), (''jonathan'', 2)] ''jon'' = Some 2"
    by code_simp
  have len: "length (normalizeName ''jon'') = 3" by code_simp
  have p1: "\<forall>r. mapGet m (normalizeName i) = Some r \<longrightarrow> findRowByName m i = Some r"
    using findRowByName_exact by blast
  have p2: "\<forall>k r. (k, r) \<in> set (partialMatches m (normalizeName i))
                \<longleftrightarrow> (k, r) \<in> set m \<and> (sublist (normalizeName i) k \<or> sublist k (normalizeName i))"
    using partialMatches_set by blast
  have p3: "mapGet m (normalizeName i) = None \<longrightarrow> partialMatches m (normalizeName i) = []
              \<longrightarrow> findRowByName m i = None"
    using findRowByName_none by blast
  have p4: "mapGet m (normalizeName i) = None \<longrightarrow> partialMatches m (normalizeName i) \<noteq> [] \<longrightarrow>
             (\<exists>k r. (k, r) \<in> set (partialMatches m (normalizeName i))
                \<and> findRowByName m i = Some r
                \<and> (\<forall>(k', r') \<in> set (partialMatches m (normalizeName i)).
                      \<bar>int (length k) - int (length (normalizeName i))\<bar>
                      \<le> \<bar>int (length k') - int (length (normalizeName i))\<bar>))"
    using findRowByName_closest [of m i] by blast
  have l: "length ''jon smith'' = 9 \<and> length ''jonathan'' = 8" by simp
  show ?thesis
    apply (intro conjI impI)
    using p1 apply blast
    using p2 apply blast
    using p3 apply blast
    using p4 apply blast
    using l len ex apply simp_all
    done
qed

theorem findRowByName_two_phase_witness:
  "mapGet [(''alice'', 4 :: nat)] (normalizeName '' ALICE '') = Some 4
   \<and> findRowByName [(''alice'', 4)] '' ALICE '' = Some 4
   \<and> mapGet [(''jon smith'', 1), (''jonathan'', 2 :: nat)] (normalizeName ''Jon'') = None
   \<and> partialMatches [(''jon smith'', 1), (''jonathan'', 2)] (normalizeName ''Jon'') \<noteq> []
   \<and> findRowByName [(''jon smith'', 1), (''jonathan'', 2)] ''Jon'' = Some 2
   \<and> mapGet [(''bob'', 1 :: nat)] (normalizeName ''zed'') = None
   \<and> partialMatches [(''bob'', 1)] (normalizeName ''zed'') = []
   \<and> findRowByName [(''bob'', 1)] ''zed'' = None"
proof -
  let ?m = "[(''jon smith'', 1), (''jonathan'', 2 :: nat)]"
  have a: "mapGet [(''alice'', 4 :: nat)] (normalizeName '' ALICE '') = Some 4" by code_simp
  have a': "findRowByName [(''alice'', 4)] '' ALICE '' = Some 4"
    using findRowByName_two_phase [of "[(''alice'', 4)]" "'' ALICE ''", THEN conjunct1] a by blast
  have n: "normalizeName ''Jon'' = ''jon''" by code_simp
  have g: "mapGet ?m ''jon'' = None" by code_simp
  have pm: "partialMatches ?m ''jon'' = ?m" by code_simp
  note t = findRowByName_two_phase [of ?m "''Jon''", THEN conjunct2, THEN conjunct1, unfolded n]
  note t4 = t [rule_format, OF g, THEN conjunct2, THEN conjunct2, unfolded pm]
  have "?m \<noteq> []" by simp
  from t4 [rule_format, OF this]
  obtain k r where kr: "(k, r) \<in> set ?m" "findRowByName ?m ''Jon'' = Some r"
    "\<forall>(k', r') \<in> set ?m. \<bar>int (length k) - int (length ''jon'')\<bar>
        \<le> \<bar>int (length k') - int (length ''jon'')\<bar>"
    by blast
  have "k \<noteq> ''jon smith''" using kr(3) by auto
  then have "r = 2" using kr(1) by auto
  then have b: "findRowByName ?m ''Jon'' = Some 2" using kr(2) by simp
  have z: "normalizeName ''zed'' = ''zed''" by code_simp
  have zg: "mapGet [(''bob'', 1 :: nat)] ''zed'' = None" by code_simp
  have zp: "partialMatches [(''bob'', 1)] ''zed'' = []" by code_simp
  have c: "findRowByName [(''bob'', 1)] ''zed'' = None"
    using findRowByName_two_phase [of "[(''bob'', 1)]" "''zed''", THEN conjunct2, THEN conjunct1,
        unfolded z, rule_format, OF zg, THEN conjunct2, THEN conjunct1] zp by blast
  show ?thesis using a a' b c g pm zg zp unfolding n z by simp
qed

section \<open>Facts about name normalisation\<close>

lemma toLowerChar_code: "(of_char (toLowerChar c) :: nat) =
   (let n = (of_char c :: nat)
      in if (65 \<le> n \<and> n \<le> 90) \<or> (192 \<le> n \<and> n \<le> 222 \<and> n \<noteq> 215) then n + 32 else n)"
  by (auto simp: toLowerChar_def Let_def)

lemma isSpace_toLowerChar [simp]: "isSpace (toLowerChar c) = isSpace c"
  unfolding isSpace_def toLowerChar_code by (auto simp: Let_def)

lemma toLowerChar_idem [simp]: "toLowerChar (toLowerChar c) = toLowerChar c"
proof -
  have "(of_char (toLowerChar (toLowerChar c)) :: nat) = of_char (toLowerChar c)"
    unfolding toLowerChar_code [of "toLowerChar c"] unfolding toLowerChar_code [of c]
    by (auto simp: Let_def)
  then show ?thesis by (metis char_of_char)
qed

lemma toLowerChar_space [simp]: "toLowerChar CHR '' '' = CHR '' ''"
  by (simp add: toLowerChar_def)

lemma dropWhile_isSpace_lower:
  "dropWhile isSpace (map toLowerChar s) = map toLowerChar (dropWhile isSpace s)"
  by (induction s) auto

lemma trim_lower: "trim (map toLowerChar s) = map toLowerChar (trim s)"
  by (simp add: trim_def dropWhile_isSpace_lower rev_map)

lemma collapse_lower: "collapseSpaces (map toLowerChar s) = map toLowerChar (collapseSpaces s)"
  by (induction s rule: collapseSpaces.induct) (auto simp: dropWhile_isSpace_lower)

lemma dropWhile_hd: "dropWhile P xs \<noteq> [] \<Longrightarrow> \<not> P (hd (dropWhile P xs))"
  by (metis hd_dropWhile)

lemma edgesClean_trim: "edgesClean (trim s)"
proof -
  let ?a = "dropWhile isSpace s"
  let ?b = "dropWhile isSpace (rev ?a)"
  show ?thesis
  proof (cases "?b = []")
    case True
    then show ?thesis by (simp add: edgesClean_def trim_def)
  next
    case False
    have hb: "\<not> isSpace (hd ?b)" using False by (rule dropWhile_hd)
    have "rev ?a = takeWhile isSpace (rev ?a) @ ?b" by simp
    then have "last (rev ?a) = last ?b" using False by (metis last_appendR)
    moreover have "rev ?a \<noteq> []"
    proof
      assume "rev ?a = []"
      then have "?b = []" by (simp only: dropWhile.simps)
      then show False using False by simp
    qed
    ultimately have l1: "last ?b = hd ?a" by (simp add: last_rev)
    have "?a \<noteq> []" using \<open>rev ?a \<noteq> []\<close> by simp
    then have l2: "\<not> isSpace (hd ?a)" by (rule dropWhile_hd)
    have lb: "\<not> isSpace (last ?b)" unfolding l1 by (rule l2)
    show ?thesis using hb lb False by (simp add: edgesClean_def trim_def hd_rev last_rev)
  qed
qed

lemma trim_edgesClean: "edgesClean s \<Longrightarrow> trim s = s"
proof (cases s)
  case Nil
  then show ?thesis by (simp add: trim_def)
next
  case (Cons c cs)
  assume "edgesClean s"
  then have h: "\<not> isSpace c" "\<not> isSpace (last s)" using Cons by (auto simp: edgesClean_def)
  have "dropWhile isSpace s = s" using h(1) Cons by simp
  moreover have "dropWhile isSpace (rev s) = rev s"
  proof -
    have "rev s \<noteq> []" using Cons by simp
    then obtain x xs where r: "rev s = x # xs" by (cases "rev s") auto
    have "hd (rev s) = last s" using Cons by (simp add: hd_rev)
    then have "\<not> isSpace x" using h(2) r by simp
    then show ?thesis using r by simp
  qed
  ultimately show ?thesis by (simp add: trim_def)
qed

lemma collapse_nonempty: "s \<noteq> [] \<Longrightarrow> collapseSpaces s \<noteq> []"
  by (cases s) auto

lemma collapse_hd: "s \<noteq> [] \<Longrightarrow> \<not> isSpace (hd s) \<Longrightarrow> hd (collapseSpaces s) = hd s"
  by (cases s) auto

lemma collapse_last: "s \<noteq> [] \<Longrightarrow> \<not> isSpace (last s) \<Longrightarrow> \<not> isSpace (last (collapseSpaces s))"
proof (induction s rule: collapseSpaces.induct)
  case 1
  then show ?case by simp
next
  case (2 c cs)
  show ?case
  proof (cases "isSpace c")
    case True
    let ?d = "dropWhile isSpace cs"
    have "cs \<noteq> []" using True 2(4) by auto
    have ne: "?d \<noteq> []"
    proof
      assume "?d = []"
      then have "\<forall>x \<in> set cs. isSpace x" by (simp add: dropWhile_eq_Nil_conv)
      then have "isSpace (last cs)" using \<open>cs \<noteq> []\<close> by simp
      then show False using 2(4) \<open>cs \<noteq> []\<close> by simp
    qed
    have "cs = takeWhile isSpace cs @ ?d" by simp
    then have "last cs = last ?d" using ne by (metis last_appendR)
    then have "\<not> isSpace (last ?d)" using 2(4) \<open>cs \<noteq> []\<close> by simp
    then have "\<not> isSpace (last (collapseSpaces ?d))" using 2(1) [OF True ne] by simp
    then show ?thesis using True collapse_nonempty [OF ne] by simp
  next
    case False
    show ?thesis
    proof (cases "cs = []")
      case True
      then show ?thesis using False by simp
    next
      case ne: False
      then have "\<not> isSpace (last cs)" using 2(4) by simp
      then have "\<not> isSpace (last (collapseSpaces cs))" using 2(2) [OF False ne] by simp
      then show ?thesis using False collapse_nonempty [OF ne] by simp
    qed
  qed
qed

lemma edgesClean_collapse: "edgesClean s \<Longrightarrow> edgesClean (collapseSpaces s)"
proof (cases "s = []")
  case True
  then show ?thesis by (simp add: edgesClean_def)
next
  case False
  assume "edgesClean s"
  then have h: "\<not> isSpace (hd s)" "\<not> isSpace (last s)" using False by (auto simp: edgesClean_def)
  have "\<not> isSpace (hd (collapseSpaces s))" using collapse_hd [OF False h(1)] h(1) by simp
  moreover have "\<not> isSpace (last (collapseSpaces s))" using collapse_last [OF False h(2)] .
  ultimately show ?thesis by (simp add: edgesClean_def)
qed

lemma dropWhile_collapse:
  "s = [] \<or> \<not> isSpace (hd s) \<Longrightarrow> dropWhile isSpace (collapseSpaces s) = collapseSpaces s"
  by (cases s) auto

lemma collapse_idem: "collapseSpaces (collapseSpaces s) = collapseSpaces s"
proof (induction s rule: collapseSpaces.induct)
  case 1
  then show ?case by simp
next
  case (2 c cs)
  show ?case
  proof (cases "isSpace c")
    case True
    let ?d = "dropWhile isSpace cs"
    have "?d = [] \<or> \<not> isSpace (hd ?d)" using dropWhile_hd by blast
    then have "dropWhile isSpace (collapseSpaces ?d) = collapseSpaces ?d"
      by (rule dropWhile_collapse)
    moreover have "isSpace CHR '' ''" by (simp add: isSpace_def)
    ultimately show ?thesis using True 2(1) [OF True] by simp
  next
    case False
    then show ?thesis using 2(2) by simp
  qed
qed

lemma normalizeName_idem: "normalizeName (normalizeName s) = normalizeName s"
proof -
  let ?t = "collapseSpaces (trim s)"
  have e: "edgesClean ?t" using edgesClean_trim edgesClean_collapse by blast
  have "normalizeName (normalizeName s) = map toLowerChar (collapseSpaces (trim (map toLowerChar ?t)))"
    by (simp add: normalizeName_def toLocaleLowerCase_def)
  also have "\<dots> = map toLowerChar (map toLowerChar (collapseSpaces (trim ?t)))"
    by (simp only: trim_lower collapse_lower)
  also have "\<dots> = map toLowerChar (collapseSpaces ?t)"
    using trim_edgesClean [OF e] by simp
  also have "\<dots> = normalizeName s"
    by (simp add: collapse_idem normalizeName_def toLocaleLowerCase_def)
  finally show ?thesis .
qed

lemma normalizeName_Nil [simp]: "normalizeName [] = []"
  by (simp add: normalizeName_def toLocaleLowerCase_def trim_def)

section \<open>Facts about the name index\<close>

lemma dropWhile_Nil_all: "dropWhile P xs = [] \<longleftrightarrow> (\<forall>x \<in> set xs. P x)"
  by (induction xs) auto

lemma normalizeName_empty_iff: "normalizeName s = [] \<longleftrightarrow> (\<forall>c \<in> set s. isSpace c)"
proof -
  have c: "\<And>t. collapseSpaces t = [] \<longleftrightarrow> t = []" by (case_tac t) auto
  let ?a = "dropWhile isSpace s"
  have "trim s = [] \<longleftrightarrow> (\<forall>x \<in> set ?a. isSpace x)"
    by (simp add: trim_def dropWhile_Nil_all)
  also have "\<dots> \<longleftrightarrow> ?a = []"
  proof
    assume all: "\<forall>x \<in> set ?a. isSpace x"
    show "?a = []"
    proof (rule ccontr)
      assume ne: "?a \<noteq> []"
      then have "\<not> isSpace (hd ?a)" by (rule dropWhile_hd)
      moreover have "hd ?a \<in> set ?a" using ne by simp
      ultimately show False using all by blast
    qed
  next
    assume e: "?a = []"
    show "\<forall>x \<in> set ?a. isSpace x" unfolding e by simp
  qed
  also have "\<dots> \<longleftrightarrow> (\<forall>c \<in> set s. isSpace c)" by (rule dropWhile_Nil_all)
  finally show ?thesis by (simp add: normalizeName_def toLocaleLowerCase_def c)
qed

lemma mapSet_keys: "fst ` set (mapSet m k v) = insert k (fst ` set m)"
  by (induction m) force+

lemma mapSet_distinct: "distinct (map fst m) \<Longrightarrow> distinct (map fst (mapSet m k v))"
proof (induction m)
  case Nil
  then show ?case by simp
next
  case (Cons a m)
  then show ?case using mapSet_keys [of m k v] by (cases a) (auto simp: image_iff)
qed

lemma mapSet_entries: "(k', v') \<in> set (mapSet m k v) \<Longrightarrow> (k' = k \<and> v' = v) \<or> (k', v') \<in> set m"
  by (induction m) (auto split: if_splits)

lemma mapGet_mapSet: "mapGet (mapSet m k v) k' = (if k' = k then Some v else mapGet m k')"
  by (induction m) (auto simp: mapGet_def)

lemma mapGet_None_iff: "mapGet m k = None \<longleftrightarrow> k \<notin> fst ` set m"
  by (simp add: mapGet_def map_of_eq_None_iff)

lemma findRowByName_None_get: "findRowByName m i = None \<Longrightarrow> mapGet m (normalizeName i) = None"
  by (auto simp: findRowByName_def Let_def split: option.splits)

lemma dataNames_set:
  "x \<in> set (dataNames vals) \<longleftrightarrow> (\<exists>r. 1 \<le> r \<and> r < length vals \<and> rowKey vals r = x)"
proof
  assume "x \<in> set (dataNames vals)"
  then obtain j where j: "j < length (tl vals)" "x = normalizeName (cellAt (tl vals ! j) 0)"
    by (auto simp: dataNames_def in_set_conv_nth)
  then have "1 \<le> Suc j \<and> Suc j < length vals \<and> rowKey vals (Suc j) = x"
    by (simp add: rowKey_def nth_tl)
  then show "\<exists>r. 1 \<le> r \<and> r < length vals \<and> rowKey vals r = x" by blast
next
  assume "\<exists>r. 1 \<le> r \<and> r < length vals \<and> rowKey vals r = x"
  then obtain r where r: "1 \<le> r" "r < length vals" "rowKey vals r = x" by blast
  then have "r - 1 < length (tl vals)" "tl vals ! (r - 1) = vals ! r"
    by (simp_all add: nth_tl)
  then have "vals ! r \<in> set (tl vals)" by (metis nth_mem)
  then show "x \<in> set (dataNames vals)" using r(3) by (auto simp: dataNames_def rowKey_def)
qed

lemma dataNames_snoc: "vals \<noteq> [] \<Longrightarrow> dataNames (vals @ [[nm]]) = dataNames vals @ [normalizeName nm]"
  by (cases vals) (simp_all add: dataNames_def cellAt_def)

lemma rowKey_append: "r < length vals \<Longrightarrow> rowKey (vals @ ys) r = rowKey vals r"
  by (simp add: rowKey_def nth_append)

lemma rowKey_new: "rowKey (vals @ [[nm]]) (length vals) = normalizeName nm"
  by (simp add: rowKey_def cellAt_def)

lemma indexInv_append:
  assumes inv: "indexInv vals m" and ne: "vals \<noteq> []" and nk: "mapGet m (normalizeName nm) = None"
  shows "indexInv (vals @ [[nm]]) (mapSet m (normalizeName nm) (length vals))"
proof -
  let ?n = "normalizeName nm"
  let ?v = "vals @ [[nm]]"
  let ?m = "mapSet m ?n (length vals)"
  have d: "distinct (map fst ?m)" using inv by (simp add: indexInv_def indexInvUpto_def mapSet_distinct)
  have e: "\<forall>(k, r) \<in> set ?m. 1 \<le> r \<and> r < length ?v \<and> rowKey ?v r = k"
  proof (clarify)
    fix k r assume "(k, r) \<in> set ?m"
    then consider "k = ?n \<and> r = length vals" | "(k, r) \<in> set m"
      by (blast dest: mapSet_entries)
    then show "1 \<le> r \<and> r < length ?v \<and> rowKey ?v r = k"
    proof cases
      case 1
      have "1 \<le> length vals" using ne by (cases vals) auto
      then show ?thesis using 1 by (simp add: rowKey_new)
    next
      case 2
      then have "1 \<le> r \<and> r < length vals \<and> rowKey vals r = k"
        using inv by (auto simp: indexInv_def indexInvUpto_def)
      then show ?thesis by (simp add: rowKey_append)
    qed
  qed
  have c: "\<forall>r. 1 \<le> r \<and> r < length ?v \<and> rowKey ?v r \<noteq> [] \<longrightarrow> rowKey ?v r \<in> fst ` set ?m"
  proof (intro allI impI)
    fix r assume a: "1 \<le> r \<and> r < length ?v \<and> rowKey ?v r \<noteq> []"
    show "rowKey ?v r \<in> fst ` set ?m"
    proof (cases "r < length vals")
      case True
      then have "rowKey vals r \<in> fst ` set m"
        using a inv by (simp add: indexInv_def indexInvUpto_def rowKey_append)
      then show ?thesis using True by (simp add: mapSet_keys rowKey_append)
    next
      case False
      then have "r = length vals" using a by simp
      then show ?thesis by (simp add: rowKey_new mapSet_keys)
    qed
  qed
  show ?thesis unfolding indexInv_def indexInvUpto_def using d e c by blast
qed

lemma indexInv_fresh:
  assumes inv: "indexInv vals m" and nk: "mapGet m n = None" and nb: "n \<noteq> []"
  shows "n \<notin> set (dataNames vals)"
proof
  assume "n \<in> set (dataNames vals)"
  then obtain r where "1 \<le> r" "r < length vals" "rowKey vals r = n"
    using dataNames_set by blast
  then have "n \<in> fst ` set m" using inv nb by (auto simp: indexInv_def indexInvUpto_def)
  then show False using nk by (simp add: mapGet_None_iff)
qed

lemma findIndex_Some: "findIndex p xs = Some i \<Longrightarrow> i < length xs \<and> p (xs ! i)"
proof (induction xs arbitrary: i)
  case Nil
  then show ?case by simp
next
  case (Cons x xs)
  then show ?case by (cases "p x") (auto split: if_splits)
qed

lemma toString_1: "toString (Suc 0) = ''1''"
  by code_simp

lemma prepareHeader_facts:
  assumes "prepareHeader existing dl = (dc, vals)"
  shows "vals \<noteq> []" "tl vals = tl existing" "dc < length (vals ! 0)" "(vals ! 0) ! dc = dl"
proof -
  define vals0 where "vals0 = (if length existing = 0 then [[]] else existing)"
  define vals1 where "vals1 = (if cellAt (vals0 ! 0) 0 = [] then vals0[0 := arraySet (vals0 ! 0) 0 ''Name''] else vals0)"
  define header where "header = vals1 ! 0"
  have v0: "vals0 \<noteq> []" "tl vals0 = tl existing"
    by (auto simp: vals0_def)
  have v1: "vals1 \<noteq> []" "tl vals1 = tl existing"
    using v0 by (cases vals0; simp add: vals1_def)+
  have hne: "header \<noteq> []"
  proof (cases "cellAt (vals0 ! 0) 0 = []")
    case True
    then have "header = arraySet (vals0 ! 0) 0 ''Name''"
      using v0(1) by (simp add: header_def vals1_def)
    then show ?thesis by (auto simp: arraySet_def)
  next
    case False
    then have "header = vals0 ! 0" by (simp add: header_def vals1_def)
    then show ?thesis using False by (auto simp: cellAt_def)
  qed
  have p: "prepareHeader existing dl =
     (case findIndex (\<lambda>v. v = dl) header of
           Some i \<Rightarrow> (i, vals1)
         | None \<Rightarrow> (max 1 (length header), vals1[0 := arraySet header (max 1 (length header)) dl]))"
    unfolding prepareHeader_def Let_def header_def vals1_def vals0_def by (rule refl)
  show "vals \<noteq> []" "tl vals = tl existing" "dc < length (vals ! 0)" "(vals ! 0) ! dc = dl"
  proof -
    show a: "vals \<noteq> []" using assms p v1(1) by (auto split: option.splits)
    show "tl vals = tl existing"
      using assms p v1 by (cases vals1) (auto split: option.splits)
    show "dc < length (vals ! 0)" "(vals ! 0) ! dc = dl"
    proof -
      have "dc < length (vals ! 0) \<and> (vals ! 0) ! dc = dl"
      proof (cases "findIndex (\<lambda>v. v = dl) header")
        case (Some i)
        then have "dc = i" "vals = vals1" using assms p by auto
        then show ?thesis using findIndex_Some [OF Some] by (simp add: header_def)
      next
        case None
        have m: "max 1 (length header) = length header" using hne by (cases header) auto
        have "dc = length header" "vals = vals1[0 := header @ [dl]]"
          using assms p None m by (auto simp: arraySet_def)
        then show ?thesis using v1(1) by (cases vals1) auto
      qed
      then show "dc < length (vals ! 0)" "(vals ! 0) ! dc = dl" by blast+
    qed
  qed
qed

lemma buildNameToRow_upto:
  "n \<le> length vals \<Longrightarrow> indexInvUpto n vals (foldl (indexRow vals) [] [Suc 0 ..< n])"
proof (induction n)
  case 0
  then show ?case by (simp add: indexInvUpto_def)
next
  case (Suc n)
  let ?m = "foldl (indexRow vals) [] [Suc 0 ..< n]"
  have IH: "distinct (map fst ?m)"
       "\<forall>(k, r) \<in> set ?m. 1 \<le> r \<and> r < n \<and> rowKey vals r = k"
       "\<forall>r. 1 \<le> r \<and> r < n \<and> rowKey vals r \<noteq> [] \<longrightarrow> rowKey vals r \<in> fst ` set ?m"
    using Suc by (simp_all add: indexInvUpto_def)
  show ?case
  proof (cases "1 \<le> n")
    case False
    then show ?thesis by (simp add: indexInvUpto_def)
  next
    case True
    then have up: "[Suc 0 ..< Suc n] = [Suc 0 ..< n] @ [n]" by simp
    have fold: "foldl (indexRow vals) [] [Suc 0 ..< Suc n] = indexRow vals ?m n" unfolding up by simp
    show ?thesis
    proof (cases "rowKey vals n = []")
      case e: True
      then have f': "foldl (indexRow vals) [] [Suc 0 ..< Suc n] = ?m"
        unfolding fold by (simp add: rowKey_def indexRow_def)
      have "\<forall>(k, r) \<in> set ?m. 1 \<le> r \<and> r < Suc n \<and> rowKey vals r = k"
        using IH(2) by auto
      moreover have "\<forall>r. 1 \<le> r \<and> r < Suc n \<and> rowKey vals r \<noteq> [] \<longrightarrow> rowKey vals r \<in> fst ` set ?m"
        using IH(3) e by (auto simp: less_Suc_eq)
      ultimately show ?thesis unfolding f' indexInvUpto_def using IH(1) by (intro conjI)
    next
      case ne: False
      let ?m' = "mapSet ?m (rowKey vals n) n"
      have f': "foldl (indexRow vals) [] [Suc 0 ..< Suc n] = ?m'"
        unfolding fold using ne by (simp add: rowKey_def indexRow_def)
      have d: "distinct (map fst ?m')" using IH(1) by (rule mapSet_distinct)
      have e: "\<forall>(k, r) \<in> set ?m'. 1 \<le> r \<and> r < Suc n \<and> rowKey vals r = k"
      proof (clarify)
        fix k r assume "(k, r) \<in> set ?m'"
        then consider "k = rowKey vals n \<and> r = n" | "(k, r) \<in> set ?m"
          by (blast dest: mapSet_entries)
        then show "1 \<le> r \<and> r < Suc n \<and> rowKey vals r = k"
        proof cases
          case 1
          then show ?thesis using True by simp
        next
          case 2
          then have "1 \<le> r \<and> r < n \<and> rowKey vals r = k" using IH(2) by blast
          then show ?thesis by simp
        qed
      qed
      have c: "\<forall>r. 1 \<le> r \<and> r < Suc n \<and> rowKey vals r \<noteq> [] \<longrightarrow> rowKey vals r \<in> fst ` set ?m'"
        using IH(3) by (auto simp: less_Suc_eq mapSet_keys)
      show ?thesis unfolding f' indexInvUpto_def by (intro conjI d e c)
    qed
  qed
qed

lemma indexInv_build: "indexInv vals (buildNameToRow vals)"
  using buildNameToRow_upto [of "length vals" vals]
  by (simp add: indexInv_def buildNameToRow_def)

section \<open>Facts about the upsert loop\<close>

lemma findRowByName_Some_entry:
  assumes "findRowByName m i = Some r"
  shows "\<exists>k. (k, r) \<in> set m"
proof (cases "mapGet m (normalizeName i)")
  case (Some e)
  then have "r = e" using assms findRowByName_exact by fastforce
  then show ?thesis using Some by (auto simp: mapGet_def dest: map_of_SomeD)
next
  case None
  show ?thesis
  proof (cases "partialMatches m (normalizeName i) = []")
    case True
    then show ?thesis using assms None findRowByName_none by fastforce
  next
    case False
    from findRowByName_closest [OF None False] obtain k r' where
      "(k, r') \<in> set (partialMatches m (normalizeName i))" "findRowByName m i = Some r'"
      by blast
    then show ?thesis using assms partialMatches_set by auto
  qed
qed

lemma upsertStep_found:
  "findRowByName m (normalizeName (name sc)) = Some r \<Longrightarrow>
   upsertStep sn dc (vals, m, ups) sc = (vals, m, ups @ [cellWrite sn dc r (culvert sc)])"
  by (simp add: upsertStep_def cellWrite_def)

lemma upsertStep_new:
  "findRowByName m (normalizeName (name sc)) = None \<Longrightarrow>
   upsertStep sn dc (vals, m, ups) sc =
     (vals @ [[name sc]], mapSet m (normalizeName (name sc)) (length vals),
      ups @ [cellWrite sn dc (length vals) (culvert sc)])"
  by (simp add: upsertStep_def cellWrite_def)

lemma upsertStep_inv:
  assumes st: "upsertStep sn dc (vals, m, ups) sc = (vals', m', ups')"
      and ne: "vals \<noteq> []" and inv: "indexInv vals m"
  shows "\<exists>extra. vals' = vals @ extra"
    and "indexInv vals' m'"
    and "\<exists>rowIdx. rowIdx < length vals' \<and> ups' = ups @ [cellWrite sn dc rowIdx (culvert sc)]"
    and "distinct (filter (\<lambda>k. k \<noteq> []) (dataNames vals))
         \<Longrightarrow> distinct (filter (\<lambda>k. k \<noteq> []) (dataNames vals'))"
    and "distinct (dataNames vals) \<Longrightarrow> normalizeName (name sc) \<noteq> [] \<Longrightarrow> distinct (dataNames vals')"
proof -
  let ?n = "normalizeName (name sc)"
  show "\<exists>extra. vals' = vals @ extra"
    using st by (cases "findRowByName m ?n") (auto simp: upsertStep_found upsertStep_new)
  show "indexInv vals' m'"
  proof (cases "findRowByName m ?n")
    case None
    then have g: "mapGet m ?n = None"
      using findRowByName_None_get [of m ?n] by (simp add: normalizeName_idem)
    show ?thesis using st indexInv_append [OF inv ne g] by (simp add: upsertStep_new [OF None])
  next
    case (Some r)
    then show ?thesis using st inv by (simp add: upsertStep_found)
  qed
  show "\<exists>rowIdx. rowIdx < length vals' \<and> ups' = ups @ [cellWrite sn dc rowIdx (culvert sc)]"
  proof (cases "findRowByName m ?n")
    case None
    then show ?thesis using st by (auto simp: upsertStep_new)
  next
    case (Some r)
    then obtain k where "(k, r) \<in> set m" using findRowByName_Some_entry by blast
    then have "r < length vals" using inv by (auto simp: indexInv_def indexInvUpto_def)
    then show ?thesis using st Some by (auto simp: upsertStep_found)
  qed
  show "distinct (filter (\<lambda>k. k \<noteq> []) (dataNames vals'))"
    if d: "distinct (filter (\<lambda>k. k \<noteq> []) (dataNames vals))"
  proof (cases "findRowByName m ?n")
    case None
    then have g: "mapGet m ?n = None"
      using findRowByName_None_get [of m ?n] by (simp add: normalizeName_idem)
    have v: "vals' = vals @ [[name sc]]" using st by (simp add: upsertStep_new [OF None])
    show ?thesis
    proof (cases "?n = []")
      case True
      then show ?thesis using d by (simp add: v dataNames_snoc [OF ne])
    next
      case False
      then show ?thesis using d indexInv_fresh [OF inv g False] by (simp add: v dataNames_snoc [OF ne])
    qed
  next
    case (Some r)
    then show ?thesis using st d by (simp add: upsertStep_found)
  qed
  show "distinct (dataNames vals')" if d: "distinct (dataNames vals)" and nb: "?n \<noteq> []"
  proof (cases "findRowByName m ?n")
    case None
    then have g: "mapGet m ?n = None"
      using findRowByName_None_get [of m ?n] by (simp add: normalizeName_idem)
    have v: "vals' = vals @ [[name sc]]" using st by (simp add: upsertStep_new [OF None])
    show ?thesis using d indexInv_fresh [OF inv g nb] by (simp add: v dataNames_snoc [OF ne])
  next
    case (Some r)
    then show ?thesis using st d by (simp add: upsertStep_found)
  qed
qed

lemma upsert_loop:
  assumes "foldl (upsertStep sn dc) (vals, m, ups) scores = (vals', m', ups')"
      and "vals \<noteq> []" and "indexInv vals m"
  shows "(\<exists>extra. vals' = vals @ extra) \<and> indexInv vals' m'
     \<and> (\<exists>new. ups' = ups @ new \<and> length new = length scores
           \<and> (\<forall>u \<in> set new. \<exists>rowIdx v. rowIdx < length vals' \<and> u = cellWrite sn dc rowIdx v))
     \<and> (distinct (filter (\<lambda>k. k \<noteq> []) (dataNames vals))
           \<longrightarrow> distinct (filter (\<lambda>k. k \<noteq> []) (dataNames vals')))
     \<and> (distinct (dataNames vals) \<and> (\<forall>s \<in> set scores. normalizeName (name s) \<noteq> [])
           \<longrightarrow> distinct (dataNames vals'))"
  using assms
proof (induction scores arbitrary: vals m ups)
  case Nil
  then show ?case by simp
next
  case (Cons sc scores)
  obtain v1 m1 u1 where s1: "upsertStep sn dc (vals, m, ups) sc = (v1, m1, u1)"
    by (metis prod_cases3)
  note f = upsertStep_inv [OF s1 Cons.prems(2) Cons.prems(3)]
  from f(1) obtain e1 where e1: "v1 = vals @ e1" by blast
  then have ne1: "v1 \<noteq> []" using Cons.prems(2) by simp
  from f(3) obtain r1 where r1: "r1 < length v1" "u1 = ups @ [cellWrite sn dc r1 (culvert sc)]"
    by blast
  have rest: "foldl (upsertStep sn dc) (v1, m1, u1) scores = (vals', m', ups')"
    using Cons.prems(1) s1 by simp
  note IH = Cons.IH [OF rest ne1 f(2)]
  from IH obtain e2 where e2: "vals' = v1 @ e2" by blast
  from IH obtain new where new: "ups' = u1 @ new" "length new = length scores"
    "\<forall>u \<in> set new. \<exists>rowIdx v. rowIdx < length vals' \<and> u = cellWrite sn dc rowIdx v" by blast
  have a: "\<exists>extra. vals' = vals @ extra" using e1 e2 by simp
  have b: "indexInv vals' m'" using IH by blast
  have "r1 < length vals'" using r1(1) e2 by simp
  then have c: "\<exists>new'. ups' = ups @ new' \<and> length new' = length (sc # scores)
           \<and> (\<forall>u \<in> set new'. \<exists>rowIdx v. rowIdx < length vals' \<and> u = cellWrite sn dc rowIdx v)"
    using new r1(2)
    by (intro exI [of _ "cellWrite sn dc r1 (culvert sc) # new"]) auto
  have d: "distinct (filter (\<lambda>k. k \<noteq> []) (dataNames vals))
           \<longrightarrow> distinct (filter (\<lambda>k. k \<noteq> []) (dataNames vals'))"
    using f(4) IH by blast
  have e: "distinct (dataNames vals) \<and> (\<forall>s \<in> set (sc # scores). normalizeName (name s) \<noteq> [])
           \<longrightarrow> distinct (dataNames vals')"
    using f(5) IH by simp
  show ?case using a b c d e by blast
qed

lemma upsert_result:
  assumes ne: "scores \<noteq> []"
  obtains dc vals vals' m' ups where
    "prepareHeader existing dl = (dc, vals)"
    "foldl (upsertStep sn dc) (vals, buildNameToRow vals, []) scores = (vals', m', ups)"
    "upsertCulvertScoresByName sn existing dl scores =
       Some (vals', ups @
         [\<lparr>rangeA1 = sn @ ''!A1'', cellValues = [[''Name'']]\<rparr>,
          cellWrite sn dc 0 dl,
          \<lparr>rangeA1 = sn @ ''!A2:A'' @ toString (length vals'),
           cellValues = map (\<lambda>r. [cellAt r 0]) (tl vals')\<rparr>])"
    "vals' \<noteq> []"
proof -
  obtain dc vals where p: "prepareHeader existing dl = (dc, vals)" by (metis surj_pair)
  obtain vals' m' ups where
    l: "foldl (upsertStep sn dc) (vals, buildNameToRow vals, []) scores = (vals', m', ups)"
    by (metis prod_cases3)
  have vne: "vals \<noteq> []" using prepareHeader_facts(1) [OF p] .
  from upsert_loop [OF l vne indexInv_build] obtain extra where "vals' = vals @ extra" by blast
  then have ne': "vals' \<noteq> []" using vne by simp
  then have len: "length (tl vals') + 1 = length vals'" by (cases vals') auto
  have "upsertCulvertScoresByName sn existing dl scores =
       Some (vals', ups @
         [\<lparr>rangeA1 = sn @ ''!A1'', cellValues = [[''Name'']]\<rparr>,
          cellWrite sn dc 0 dl,
          \<lparr>rangeA1 = sn @ ''!A2:A'' @ toString (length vals'),
           cellValues = map (\<lambda>r. [cellAt r 0]) (tl vals')\<rparr>])"
    using ne len by (simp add: upsertCulvertScoresByName_def p l cellWrite_def toString_1 Let_def)
  then show ?thesis using that p l ne' by blast
qed

lemma trimmed_nonblank:
  assumes "s \<noteq> []" "trim s = s"
  shows "normalizeName s \<noteq> []"
proof
  assume "normalizeName s = []"
  then have "\<forall>c \<in> set s. isSpace c" by (simp add: normalizeName_empty_iff)
  then have dw: "dropWhile isSpace s = []" unfolding dropWhile_eq_Nil_conv .
  have "trim s = []" unfolding trim_def dw by simp
  then show False using assms by simp
qed

lemma upsert_None_iff:
  "upsertCulvertScoresByName sn existing dl scores = None \<longleftrightarrow> scores = []"
proof
  assume "scores = []"
  then show "upsertCulvertScoresByName sn existing dl scores = None"
    by (simp add: upsertCulvertScoresByName_def)
next
  assume n: "upsertCulvertScoresByName sn existing dl scores = None"
  show "scores = []"
  proof (rule ccontr)
    assume ne: "scores \<noteq> []"
    from upsert_result [OF ne, of existing dl sn] obtain vals' ups where
      "upsertCulvertScoresByName sn existing dl scores = Some (vals', ups)" by blast
    then show False using n by simp
  qed
qed

lemma upsert_Some_facts:
  assumes s: "upsertCulvertScoresByName sn existing dl scores = Some (vals', updates)"
  shows "rangeA1 (last updates) = sn @ ''!A2:A'' @ toString (length vals')"
    and "cellValues (last updates) = map (\<lambda>r. [cellAt r 0]) (tl vals')"
    and "length existing \<le> length vals'"
    and "namesAfterUpsert existing (Some (vals', updates)) = dataNames vals'"
    and "distinct (dataNames existing) \<Longrightarrow> \<forall>s \<in> set scores. normalizeName (name s) \<noteq> []
           \<Longrightarrow> distinct (dataNames vals')"
    and "distinct (filter (\<lambda>k. k \<noteq> []) (dataNames existing))
           \<Longrightarrow> distinct (filter (\<lambda>k. k \<noteq> []) (dataNames vals'))"
proof -
  have ne: "scores \<noteq> []" using s upsert_None_iff [of sn existing dl scores] by auto
  from upsert_result [OF ne, of existing dl sn]
  obtain dc vals vals2 m' ups where
    p: "prepareHeader existing dl = (dc, vals)" and
    l: "foldl (upsertStep sn dc) (vals, buildNameToRow vals, []) scores = (vals2, m', ups)" and
    r: "upsertCulvertScoresByName sn existing dl scores =
       Some (vals2, ups @
         [\<lparr>rangeA1 = sn @ ''!A1'', cellValues = [[''Name'']]\<rparr>,
          cellWrite sn dc 0 dl,
          \<lparr>rangeA1 = sn @ ''!A2:A'' @ toString (length vals2),
           cellValues = map (\<lambda>r. [cellAt r 0]) (tl vals2)\<rparr>])" and
    ne': "vals2 \<noteq> []"
    by blast
  have v: "vals2 = vals'" using r s by simp
  have u: "updates = ups @
         [\<lparr>rangeA1 = sn @ ''!A1'', cellValues = [[''Name'']]\<rparr>,
          cellWrite sn dc 0 dl,
          \<lparr>rangeA1 = sn @ ''!A2:A'' @ toString (length vals'),
           cellValues = map (\<lambda>r. [cellAt r 0]) (tl vals')\<rparr>]" using r s by simp
  note hf = prepareHeader_facts [OF p]
  note lp = upsert_loop [OF l [unfolded v] hf(1) indexInv_build]
  have dn: "dataNames vals = dataNames existing" using hf(2) by (simp add: dataNames_def)
  show a1: "rangeA1 (last updates) = sn @ ''!A2:A'' @ toString (length vals')"
    unfolding u by simp
  show a2: "cellValues (last updates) = map (\<lambda>r. [cellAt r 0]) (tl vals')"
    unfolding u by simp
  from lp obtain extra where ex: "vals' = vals @ extra" by blast
  have "length (tl vals) = length (tl existing)" using hf(2) by simp
  then have "length existing \<le> length vals" using hf(1) by (cases vals; cases existing) auto
  then show "length existing \<le> length vals'" using ex by simp
  show "namesAfterUpsert existing (Some (vals', updates)) = dataNames vals'"
    by (simp add: namesAfterUpsert_def a2 dataNames_def cellAt_def comp_def)
  show "distinct (dataNames vals')"
    if "distinct (dataNames existing)" "\<forall>s \<in> set scores. normalizeName (name s) \<noteq> []"
    using lp that unfolding dn by blast
  show "distinct (filter (\<lambda>k. k \<noteq> []) (dataNames vals'))"
    if "distinct (filter (\<lambda>k. k \<noteq> []) (dataNames existing))"
    using lp that unfolding dn by blast
qed

lemma upsert_distinct_after:
  assumes d: "distinct (dataNames existing)"
      and t: "\<forall>s \<in> set scores. name s \<noteq> [] \<and> trim (name s) = name s"
  shows "distinct (namesAfterUpsert existing (upsertCulvertScoresByName sn existing dl scores))"
proof (cases "upsertCulvertScoresByName sn existing dl scores")
  case None
  then show ?thesis using d by (simp add: namesAfterUpsert_def)
next
  case (Some res)
  obtain vals' updates where res: "res = (vals', updates)" by (cases res)
  have nb: "\<forall>s \<in> set scores. normalizeName (name s) \<noteq> []"
    using t trimmed_nonblank by blast
  note f = upsert_Some_facts [OF Some [unfolded res]]
  show ?thesis unfolding Some res f(4) using f(5) [OF d nb] .
qed

section \<open>The frame of the upsert\<close>

text \<open>
  C10. For a non-empty batch the upsert returns its writes, and every write is one of: the
  name header cell A1; the bulk rewrite of the name column, A2:A\<open>n\<close>, one cell per row; or
  one cell \<open>[[v]]\<close> in the resolved date column \<open>dateCol\<close> (the column whose header holds
  the date label), in the header row (\<open>rowIdx = 0\<close>) or in an entry's row. Column A is
  \<open>columnLabel 1\<close>. No write addresses another column.
\<close>

theorem upsert_writes_frame:
  "(scores \<noteq> [] \<longrightarrow>
     (\<exists>vals' updates dateCol.
        upsertCulvertScoresByName sheetName existing dateLabel scores = Some (vals', updates)
        \<and> dateCol = fst (prepareHeader existing dateLabel)
        \<and> dateCol < length (vals' ! 0) \<and> (vals' ! 0) ! dateCol = dateLabel
        \<and> (\<forall>u \<in> set updates.
              (rangeA1 u = sheetName @ ''!A1'' \<and> cellValues u = [[''Name'']])
            \<or> (rangeA1 u = sheetName @ ''!A2:A'' @ toString (length vals')
                 \<and> length (cellValues u) = length vals' - 1
                 \<and> (\<forall>r \<in> set (cellValues u). length r = 1))
            \<or> (\<exists>rowIdx v. rowIdx < length vals'
                 \<and> rangeA1 u = sheetName @ ''!'' @ columnLabel (dateCol + 1) @ toString (rowIdx + 1)
                 \<and> cellValues u = [[v]]))))
   \<and> columnLabel 1 = ''A''"
proof (intro conjI impI)
  show "columnLabel 1 = ''A''" by code_simp
next
  assume ne: "scores \<noteq> []"
  from upsert_result [OF ne, of existing dateLabel sheetName]
  obtain dc vals vals' m' ups where
    p: "prepareHeader existing dateLabel = (dc, vals)" and
    l: "foldl (upsertStep sheetName dc) (vals, buildNameToRow vals, []) scores = (vals', m', ups)" and
    r: "upsertCulvertScoresByName sheetName existing dateLabel scores =
       Some (vals', ups @
         [\<lparr>rangeA1 = sheetName @ ''!A1'', cellValues = [[''Name'']]\<rparr>,
          cellWrite sheetName dc 0 dateLabel,
          \<lparr>rangeA1 = sheetName @ ''!A2:A'' @ toString (length vals'),
           cellValues = map (\<lambda>r. [cellAt r 0]) (tl vals')\<rparr>])" and
    ne': "vals' \<noteq> []"
    by blast
  let ?ups = "ups @
         [\<lparr>rangeA1 = sheetName @ ''!A1'', cellValues = [[''Name'']]\<rparr>,
          cellWrite sheetName dc 0 dateLabel,
          \<lparr>rangeA1 = sheetName @ ''!A2:A'' @ toString (length vals'),
           cellValues = map (\<lambda>r. [cellAt r 0]) (tl vals')\<rparr>]"
  note hf = prepareHeader_facts [OF p]
  note lp = upsert_loop [OF l hf(1) indexInv_build]
  from lp obtain extra where ex: "vals' = vals @ extra" by blast
  have h0: "vals' ! 0 = vals ! 0" using ex hf(1) by (cases vals) auto
  from lp have cw: "\<forall>u \<in> set ups. \<exists>rowIdx v. rowIdx < length vals' \<and> u = cellWrite sheetName dc rowIdx v"
    by auto
  let ?P = "\<lambda>u. (rangeA1 u = sheetName @ ''!A1'' \<and> cellValues u = [[''Name'']])
            \<or> (rangeA1 u = sheetName @ ''!A2:A'' @ toString (length vals')
                 \<and> length (cellValues u) = length vals' - 1
                 \<and> (\<forall>r \<in> set (cellValues u). length r = 1))
            \<or> (\<exists>rowIdx v. rowIdx < length vals'
                 \<and> rangeA1 u = sheetName @ ''!'' @ columnLabel (dc + 1) @ toString (rowIdx + 1)
                 \<and> cellValues u = [[v]])"
  have cwP: "\<And>rowIdx v. rowIdx < length vals' \<Longrightarrow> ?P (cellWrite sheetName dc rowIdx v)"
    by (auto simp: cellWrite_def)
  have "0 < length vals'" using ne' by simp
  then have p2: "?P (cellWrite sheetName dc 0 dateLabel)" by (rule cwP)
  have p1: "?P \<lparr>rangeA1 = sheetName @ ''!A1'', cellValues = [[''Name'']]\<rparr>" by simp
  have p3: "?P \<lparr>rangeA1 = sheetName @ ''!A2:A'' @ toString (length vals'),
           cellValues = map (\<lambda>r. [cellAt r 0]) (tl vals')\<rparr>" by simp
  have p0: "\<forall>u \<in> set ups. ?P u"
  proof
    fix u assume "u \<in> set ups"
    then obtain rowIdx v where rv: "rowIdx < length vals'" "u = cellWrite sheetName dc rowIdx v"
      using cw by blast
    show "?P u" unfolding rv(2) using rv(1) by (rule cwP)
  qed
  have all: "\<forall>u \<in> set ?ups. ?P u" using p0 p1 p2 p3 by simp
  have dcf: "dc = fst (prepareHeader existing dateLabel)" using p by simp
  show "\<exists>vals' updates dateCol.
        upsertCulvertScoresByName sheetName existing dateLabel scores = Some (vals', updates)
        \<and> dateCol = fst (prepareHeader existing dateLabel)
        \<and> dateCol < length (vals' ! 0) \<and> (vals' ! 0) ! dateCol = dateLabel
        \<and> (\<forall>u \<in> set updates.
              (rangeA1 u = sheetName @ ''!A1'' \<and> cellValues u = [[''Name'']])
            \<or> (rangeA1 u = sheetName @ ''!A2:A'' @ toString (length vals')
                 \<and> length (cellValues u) = length vals' - 1
                 \<and> (\<forall>r \<in> set (cellValues u). length r = 1))
            \<or> (\<exists>rowIdx v. rowIdx < length vals'
                 \<and> rangeA1 u = sheetName @ ''!'' @ columnLabel (dateCol + 1) @ toString (rowIdx + 1)
                 \<and> cellValues u = [[v]]))"
    apply (rule exI [of _ vals'], rule exI [of _ ?ups], rule exI [of _ dc])
    using r dcf hf(3) hf(4) h0 all by (intro conjI) simp_all
qed

section \<open>Distinct names after an upsert\<close>

text \<open>
  C2. Let the data rows of the snapshot hold pairwise distinct normalized names, and let
  every entry of the batch have a non-empty name, as the callers pass them: the name is what
  \<open>trim\<close> returned, and it is not empty. Then, for every date label, the data rows hold
  pairwise distinct normalized names once the upsert is done. For the empty batch, and only
  for it, nothing is written and the rows stay those of the snapshot. For any other batch the
  last write is the bulk write of the name column, \<open>A2:A\<close>n for the n rows of \<open>values\<close>, which
  are no fewer than the rows of the snapshot; it carries column 0 of every data row of
  \<open>values\<close>, so the names in the store are those of \<open>values\<close>, and they are pairwise distinct
  (more generally whenever every entry's name normalizes to a non-empty string; and for any
  batch at all the non-blank normalized names stay pairwise distinct). One step of the loop
  leaves \<open>values\<close> and the index alone when \<open>findRowByName\<close> resolves a row; only when it
  resolves nothing does the step append the row \<open>[name]\<close>, and it registers the normalized
  name at once, so that a later entry with the same normalized name resolves to the appended
  row. A name normalizes to the empty string exactly when it is made of white space only.
\<close>

theorem upsert_keeps_names_distinct:
  "(distinct (dataNames existing)
      \<and> (\<forall>s \<in> set scores. name s \<noteq> [] \<and> trim (name s) = name s) \<longrightarrow>
      distinct (namesAfterUpsert existing
                  (upsertCulvertScoresByName sheetName existing dateLabel scores)))
   \<and> (upsertCulvertScoresByName sheetName existing dateLabel scores = None \<longleftrightarrow> scores = [])
   \<and> (\<forall>vals' updates.
        upsertCulvertScoresByName sheetName existing dateLabel scores = Some (vals', updates) \<longrightarrow>
          rangeA1 (last updates) = sheetName @ ''!A2:A'' @ toString (length vals')
        \<and> cellValues (last updates) = map (\<lambda>r. [cellAt r 0]) (tl vals')
        \<and> length existing \<le> length vals'
        \<and> namesAfterUpsert existing (Some (vals', updates)) = dataNames vals'
        \<and> (distinct (dataNames existing) \<and> (\<forall>s \<in> set scores. normalizeName (name s) \<noteq> [])
             \<longrightarrow> distinct (dataNames vals'))
        \<and> (distinct (filter (\<lambda>k. k \<noteq> []) (dataNames existing))
             \<longrightarrow> distinct (filter (\<lambda>k. k \<noteq> []) (dataNames vals'))))
   \<and> (\<forall>r. findRowByName m (normalizeName (name sc)) = Some r \<longrightarrow>
          upsertStep sheetName dc (vals, m, ups) sc
            = (vals, m, ups @ [cellWrite sheetName dc r (culvert sc)]))
   \<and> (findRowByName m (normalizeName (name sc)) = None \<longrightarrow>
          upsertStep sheetName dc (vals, m, ups) sc
            = (vals @ [[name sc]], mapSet m (normalizeName (name sc)) (length vals),
               ups @ [cellWrite sheetName dc (length vals) (culvert sc)])
          \<and> (\<forall>sc' :: CulvertScoreRow. normalizeName (name sc') = normalizeName (name sc) \<longrightarrow>
                findRowByName (mapSet m (normalizeName (name sc)) (length vals))
                  (normalizeName (name sc')) = Some (length vals)))
   \<and> (normalizeName nm = [] \<longleftrightarrow> (\<forall>c \<in> set nm. isSpace c))"
proof -
 have N1: "distinct (dataNames existing)
      \<and> (\<forall>s \<in> set scores. name s \<noteq> [] \<and> trim (name s) = name s) \<longrightarrow>
      distinct (namesAfterUpsert existing
                  (upsertCulvertScoresByName sheetName existing dateLabel scores))"
 proof
   assume h: "distinct (dataNames existing)
      \<and> (\<forall>s \<in> set scores. name s \<noteq> [] \<and> trim (name s) = name s)"
   from h have d: "distinct (dataNames existing)" by (rule conjunct1)
   from h have t: "\<forall>s \<in> set scores. name s \<noteq> [] \<and> trim (name s) = name s" by (rule conjunct2)
   from d t show "distinct (namesAfterUpsert existing
                  (upsertCulvertScoresByName sheetName existing dateLabel scores))"
     by (rule upsert_distinct_after)
 qed
 have N2: "upsertCulvertScoresByName sheetName existing dateLabel scores = None \<longleftrightarrow> scores = []"
   by (rule upsert_None_iff)
 have N3: "\<forall>vals' updates.
        upsertCulvertScoresByName sheetName existing dateLabel scores = Some (vals', updates) \<longrightarrow>
          rangeA1 (last updates) = sheetName @ ''!A2:A'' @ toString (length vals')
        \<and> cellValues (last updates) = map (\<lambda>r. [cellAt r 0]) (tl vals')
        \<and> length existing \<le> length vals'
        \<and> namesAfterUpsert existing (Some (vals', updates)) = dataNames vals'
        \<and> (distinct (dataNames existing) \<and> (\<forall>s \<in> set scores. normalizeName (name s) \<noteq> [])
             \<longrightarrow> distinct (dataNames vals'))
        \<and> (distinct (filter (\<lambda>k. k \<noteq> []) (dataNames existing))
             \<longrightarrow> distinct (filter (\<lambda>k. k \<noteq> []) (dataNames vals')))"
 proof (intro allI impI)
   fix vals' updates
   assume s: "upsertCulvertScoresByName sheetName existing dateLabel scores = Some (vals', updates)"
   note f = upsert_Some_facts [OF s]
   have f5: "distinct (dataNames existing) \<and> (\<forall>s \<in> set scores. normalizeName (name s) \<noteq> [])
             \<longrightarrow> distinct (dataNames vals')"
     using f(5) by blast
   have f6: "distinct (filter (\<lambda>k. k \<noteq> []) (dataNames existing))
             \<longrightarrow> distinct (filter (\<lambda>k. k \<noteq> []) (dataNames vals'))"
     using f(6) by blast
   show "rangeA1 (last updates) = sheetName @ ''!A2:A'' @ toString (length vals')
        \<and> cellValues (last updates) = map (\<lambda>r. [cellAt r 0]) (tl vals')
        \<and> length existing \<le> length vals'
        \<and> namesAfterUpsert existing (Some (vals', updates)) = dataNames vals'
        \<and> (distinct (dataNames existing) \<and> (\<forall>s \<in> set scores. normalizeName (name s) \<noteq> [])
             \<longrightarrow> distinct (dataNames vals'))
        \<and> (distinct (filter (\<lambda>k. k \<noteq> []) (dataNames existing))
             \<longrightarrow> distinct (filter (\<lambda>k. k \<noteq> []) (dataNames vals')))"
     by (intro conjI f(1) f(2) f(3) f(4) f5 f6)
 qed
 have P2: "\<forall>r. findRowByName m (normalizeName (name sc)) = Some r \<longrightarrow>
          upsertStep sheetName dc (vals, m, ups) sc
            = (vals, m, ups @ [cellWrite sheetName dc r (culvert sc)])"
   using upsertStep_found by blast
 have P3: "findRowByName m (normalizeName (name sc)) = None \<longrightarrow>
          upsertStep sheetName dc (vals, m, ups) sc
            = (vals @ [[name sc]], mapSet m (normalizeName (name sc)) (length vals),
               ups @ [cellWrite sheetName dc (length vals) (culvert sc)])
          \<and> (\<forall>sc' :: CulvertScoreRow. normalizeName (name sc') = normalizeName (name sc) \<longrightarrow>
                findRowByName (mapSet m (normalizeName (name sc)) (length vals))
                  (normalizeName (name sc')) = Some (length vals))"
 proof (intro impI conjI allI)
   assume "findRowByName m (normalizeName (name sc)) = None"
   then show "upsertStep sheetName dc (vals, m, ups) sc
            = (vals @ [[name sc]], mapSet m (normalizeName (name sc)) (length vals),
               ups @ [cellWrite sheetName dc (length vals) (culvert sc)])"
     by (rule upsertStep_new)
 next
   fix sc' :: CulvertScoreRow
   assume e: "normalizeName (name sc') = normalizeName (name sc)"
   have "mapGet (mapSet m (normalizeName (name sc)) (length vals))
          (normalizeName (normalizeName (name sc'))) = Some (length vals)"
     by (simp add: normalizeName_idem e mapGet_mapSet)
   then show "findRowByName (mapSet m (normalizeName (name sc)) (length vals))
                  (normalizeName (name sc')) = Some (length vals)"
     by (rule findRowByName_exact)
 qed
 have P4: "normalizeName nm = [] \<longleftrightarrow> (\<forall>c \<in> set nm. isSpace c)"
   by (rule normalizeName_empty_iff)
 show ?thesis by (intro conjI N1 N2 N3 P2 P3 P4)
qed

theorem upsert_keeps_names_distinct_witness:
  "distinct (dataNames [[''Name'', ''1/1/24''], [''Bob'', ''5''], ['''', ''9'']])
   \<and> name \<lparr>name = ''Alice'', culvert = ''100''\<rparr> \<noteq> []
   \<and> trim (name \<lparr>name = ''Alice'', culvert = ''100''\<rparr>) = name \<lparr>name = ''Alice'', culvert = ''100''\<rparr>
   \<and> name \<lparr>name = ''bob'', culvert = ''7''\<rparr> \<noteq> []
   \<and> trim (name \<lparr>name = ''bob'', culvert = ''7''\<rparr>) = name \<lparr>name = ''bob'', culvert = ''7''\<rparr>
   \<and> name \<lparr>name = ''ALICE'', culvert = ''8''\<rparr> \<noteq> []
   \<and> trim (name \<lparr>name = ''ALICE'', culvert = ''8''\<rparr>) = name \<lparr>name = ''ALICE'', culvert = ''8''\<rparr>
   \<and> upsertCulvertScoresByName ''Sheet1'' [[''Name'', ''1/1/24''], [''Bob'', ''5''], ['''', ''9'']]
         ''3/1/24''
         [\<lparr>name = ''Alice'', culvert = ''100''\<rparr>, \<lparr>name = ''bob'', culvert = ''7''\<rparr>,
          \<lparr>name = ''ALICE'', culvert = ''8''\<rparr>]
       = Some ([[''Name'', ''1/1/24'', ''3/1/24''], [''Bob'', ''5''], ['''', ''9''], [''Alice'']],
               [\<lparr>rangeA1 = ''Sheet1!C4'', cellValues = [[''100'']]\<rparr>,
                \<lparr>rangeA1 = ''Sheet1!C2'', cellValues = [[''7'']]\<rparr>,
                \<lparr>rangeA1 = ''Sheet1!C4'', cellValues = [[''8'']]\<rparr>,
                \<lparr>rangeA1 = ''Sheet1!A1'', cellValues = [[''Name'']]\<rparr>,
                \<lparr>rangeA1 = ''Sheet1!C1'', cellValues = [[''3/1/24'']]\<rparr>,
                \<lparr>rangeA1 = ''Sheet1!A2:A4'', cellValues = [[''Bob''], [''''], [''Alice'']]\<rparr>])
   \<and> distinct (map (\<lambda>cells. normalizeName (cellAt cells 0)) [[''Bob''], [''''], [''Alice'']])
   \<and> upsertCulvertScoresByName ''Sheet1'' [[''Name'', ''1/1/24''], [''Bob'', ''5''], ['''', ''9'']]
         ''3/1/24'' [] = None
   \<and> distinct (dataNames
         [[''Name'', ''1/1/24'', ''3/1/24''], [''Bob'', ''5''], ['''', ''9''], [''Alice'']])
   \<and> findRowByName [(''bob'', 1)] (normalizeName (name \<lparr>name = ''Alice'', culvert = ''100''\<rparr>)) = None
   \<and> findRowByName (mapSet [(''bob'', 1)] ''alice'' 3)
         (normalizeName (name \<lparr>name = ''ALICE'', culvert = ''8''\<rparr>)) = Some 3
   \<and> findRowByName [(''bob'', 1)] (normalizeName (name \<lparr>name = ''bob'', culvert = ''7''\<rparr>)) = Some 1
   \<and> upsertStep ''Sheet1'' 2 ([[''Name'', ''1/1/24'', ''3/1/24''], [''Bob'', ''5''], ['''', ''9'']],
           [(''bob'', 1)], []) \<lparr>name = ''bob'', culvert = ''7''\<rparr>
       = ([[''Name'', ''1/1/24'', ''3/1/24''], [''Bob'', ''5''], ['''', ''9'']], [(''bob'', 1)],
          [cellWrite ''Sheet1'' 2 1 ''7''])"
proof -
  let ?scores = "[\<lparr>name = ''Alice'', culvert = ''100''\<rparr>, \<lparr>name = ''bob'', culvert = ''7''\<rparr>,
    \<lparr>name = ''ALICE'', culvert = ''8''\<rparr>]"
  let ?existing = "[[''Name'', ''1/1/24''], [''Bob'', ''5''], ['''', ''9'']]"
  let ?vals = "[[''Name'', ''1/1/24'', ''3/1/24''], [''Bob'', ''5''], ['''', ''9'']]"
  let ?V = "[[''Name'', ''1/1/24'', ''3/1/24''], [''Bob'', ''5''], ['''', ''9''], [''Alice'']]"
  let ?U = "[\<lparr>rangeA1 = ''Sheet1!C4'', cellValues = [[''100'']]\<rparr>,
                \<lparr>rangeA1 = ''Sheet1!C2'', cellValues = [[''7'']]\<rparr>,
                \<lparr>rangeA1 = ''Sheet1!C4'', cellValues = [[''8'']]\<rparr>,
                \<lparr>rangeA1 = ''Sheet1!A1'', cellValues = [[''Name'']]\<rparr>,
                \<lparr>rangeA1 = ''Sheet1!C1'', cellValues = [[''3/1/24'']]\<rparr>,
                \<lparr>rangeA1 = ''Sheet1!A2:A4'', cellValues = [[''Bob''], [''''], [''Alice'']]\<rparr>]"
  let ?a = "\<lparr>name = ''Alice'', culvert = ''100''\<rparr>"
  let ?b = "\<lparr>name = ''bob'', culvert = ''7''\<rparr>"
  let ?c = "\<lparr>name = ''ALICE'', culvert = ''8''\<rparr>"
  have d: "distinct (dataNames ?existing)" by code_simp
  have ta: "name ?a \<noteq> []" "trim (name ?a) = name ?a" by code_simp+
  have tb: "name ?b \<noteq> []" "trim (name ?b) = name ?b" by code_simp+
  have tc: "name ?c \<noteq> []" "trim (name ?c) = name ?c" by code_simp+
  have t: "\<forall>s \<in> set ?scores. name s \<noteq> [] \<and> trim (name s) = name s"
    using ta tb tc by simp
  have nb: "\<forall>s \<in> set ?scores. normalizeName (name s) \<noteq> []" by code_simp
  have ev: "upsertCulvertScoresByName ''Sheet1'' ?existing ''3/1/24'' ?scores = Some (?V, ?U)"
    by code_simp
  note main = upsert_keeps_names_distinct
    [where scores = ?scores and sheetName = "''Sheet1''" and existing = ?existing
       and dateLabel = "''3/1/24''" and m = "[(''bob'', 1)]" and sc = ?a and dc = 2
       and vals = ?vals and ups = "[]" and nm = "''x''"]
  have "distinct (namesAfterUpsert ?existing (Some (?V, ?U)))"
    using main [THEN conjunct1, THEN mp, OF conjI [OF d t]] unfolding ev .
  then have dW: "distinct (map (\<lambda>cells. normalizeName (cellAt cells 0))
      [[''Bob''], [''''], [''Alice'']])"
    by (simp add: namesAfterUpsert_def)
  have em: "upsertCulvertScoresByName ''Sheet1'' ?existing ''3/1/24'' [] = None"
    using upsert_keeps_names_distinct
      [where scores = "[]" and sheetName = "''Sheet1''" and existing = ?existing
         and dateLabel = "''3/1/24''", THEN conjunct2, THEN conjunct1]
    by simp
  note n3 = main [THEN conjunct2, THEN conjunct2, THEN conjunct1, rule_format, OF ev]
  have dV: "distinct (dataNames ?V)"
    using n3 [THEN conjunct2, THEN conjunct2, THEN conjunct2, THEN conjunct2, THEN conjunct1]
      d nb by blast
  have na: "normalizeName (name ?a) = ''alice''" by code_simp
  have fa: "findRowByName [(''bob'', 1)] (normalizeName (name ?a)) = None" by code_simp
  have nc: "normalizeName (name ?c) = normalizeName (name ?a)" by code_simp
  have l3: "length ?vals = 3" by simp
  note rest = main [THEN conjunct2, THEN conjunct2, THEN conjunct2]
  note fc = rest [THEN conjunct2, THEN conjunct1, THEN mp, OF fa, THEN conjunct2,
      rule_format, OF nc, unfolded na l3]
  have fb: "findRowByName [(''bob'', 1)] (normalizeName (name ?b)) = Some 1" by code_simp
  note stepb = upsert_keeps_names_distinct
    [where m = "[(''bob'', 1)]" and sc = ?b and dc = 2 and sheetName = "''Sheet1''"
       and vals = ?vals and ups = "[]", THEN conjunct2, THEN conjunct2, THEN conjunct2,
     THEN conjunct1, rule_format, OF fb]
  have sb: "upsertStep ''Sheet1'' 2 (?vals, [(''bob'', 1)], []) ?b
       = (?vals, [(''bob'', 1)], [cellWrite ''Sheet1'' 2 1 ''7''])"
    using stepb by simp
  show ?thesis by (intro conjI d ta tb tc ev dW em dV fa fc fb sb)
qed

theorem upsert_writes_frame_witness:
  "[\<lparr>name = ''Alice'', culvert = ''100''\<rparr>] \<noteq> []
   \<and> upsertCulvertScoresByName ''Sheet1'' [[''Name'', ''1/1/24''], [''Bob'', ''5'']] ''3/1/24''
         [\<lparr>name = ''Alice'', culvert = ''100''\<rparr>]
       = Some ([[''Name'', ''1/1/24'', ''3/1/24''], [''Bob'', ''5''], [''Alice'']],
               [\<lparr>rangeA1 = ''Sheet1!C3'', cellValues = [[''100'']]\<rparr>,
                \<lparr>rangeA1 = ''Sheet1!A1'', cellValues = [[''Name'']]\<rparr>,
                \<lparr>rangeA1 = ''Sheet1!C1'', cellValues = [[''3/1/24'']]\<rparr>,
                \<lparr>rangeA1 = ''Sheet1!A2:A3'', cellValues = [[''Bob''], [''Alice'']]\<rparr>])
   \<and> list_all (\<lambda>u.
              (rangeA1 u = ''Sheet1'' @ ''!A1'' \<and> cellValues u = [[''Name'']])
            \<or> (rangeA1 u = ''Sheet1'' @ ''!A2:A'' @ toString 3
                 \<and> length (cellValues u) = 3 - 1
                 \<and> (\<forall>r \<in> set (cellValues u). length r = 1))
            \<or> (\<exists>rowIdx v. rowIdx < 3
                 \<and> rangeA1 u = ''Sheet1'' @ ''!'' @ columnLabel (2 + 1) @ toString (rowIdx + 1)
                 \<and> cellValues u = [[v]]))
         [\<lparr>rangeA1 = ''Sheet1!C3'', cellValues = [[''100'']]\<rparr>,
          \<lparr>rangeA1 = ''Sheet1!A1'', cellValues = [[''Name'']]\<rparr>,
          \<lparr>rangeA1 = ''Sheet1!C1'', cellValues = [[''3/1/24'']]\<rparr>,
          \<lparr>rangeA1 = ''Sheet1!A2:A3'', cellValues = [[''Bob''], [''Alice'']]\<rparr>]"
proof -
  let ?scores = "[\<lparr>name = ''Alice'', culvert = ''100''\<rparr>]"
  let ?existing = "[[''Name'', ''1/1/24''], [''Bob'', ''5'']]"
  let ?V = "[[''Name'', ''1/1/24'', ''3/1/24''], [''Bob'', ''5''], [''Alice'']]"
  let ?U = "[\<lparr>rangeA1 = ''Sheet1!C3'', cellValues = [[''100'']]\<rparr>,
                \<lparr>rangeA1 = ''Sheet1!A1'', cellValues = [[''Name'']]\<rparr>,
                \<lparr>rangeA1 = ''Sheet1!C1'', cellValues = [[''3/1/24'']]\<rparr>,
                \<lparr>rangeA1 = ''Sheet1!A2:A3'', cellValues = [[''Bob''], [''Alice'']]\<rparr>]"
  have ne: "?scores \<noteq> []" by simp
  have ev: "upsertCulvertScoresByName ''Sheet1'' ?existing ''3/1/24'' ?scores = Some (?V, ?U)"
    by code_simp
  have ph: "fst (prepareHeader ?existing ''3/1/24'') = 2" by code_simp
  from upsert_writes_frame [where scores = ?scores and sheetName = "''Sheet1''"
      and existing = ?existing and dateLabel = "''3/1/24''", THEN conjunct1, THEN mp, OF ne]
  obtain vals' updates dateCol where
    r: "upsertCulvertScoresByName ''Sheet1'' ?existing ''3/1/24'' ?scores = Some (vals', updates)"
    and dcol: "dateCol = fst (prepareHeader ?existing ''3/1/24'')"
    and f: "\<forall>u \<in> set updates.
              (rangeA1 u = ''Sheet1'' @ ''!A1'' \<and> cellValues u = [[''Name'']])
            \<or> (rangeA1 u = ''Sheet1'' @ ''!A2:A'' @ toString (length vals')
                 \<and> length (cellValues u) = length vals' - 1
                 \<and> (\<forall>r \<in> set (cellValues u). length r = 1))
            \<or> (\<exists>rowIdx v. rowIdx < length vals'
                 \<and> rangeA1 u = ''Sheet1'' @ ''!'' @ columnLabel (dateCol + 1) @ toString (rowIdx + 1)
                 \<and> cellValues u = [[v]])"
    by blast
  have v: "vals' = ?V" "updates = ?U" using r ev by simp_all
  have l: "length ?V = 3" by simp
  have d2: "dateCol = 2" using dcol ph by simp
  note f' = f [unfolded v l d2]
  show ?thesis unfolding list_all_iff by (intro conjI ne ev f')
qed

section \<open>Facts about the day and year arithmetic\<close>

lemma div_step:
  fixes x k :: int
  assumes k: "0 < k"
  shows "(x + 1) div k = x div k + (if (x + 1) mod k = 0 then 1 else 0)"
proof -
  have r: "0 \<le> x mod k" "x mod k < k" using k by simp_all
  have e: "x + 1 = k * (x div k) + (x mod k + 1)" by simp
  show ?thesis
  proof (cases "x mod k + 1 = k")
    case True
    then have e': "x + 1 = k * (x div k + 1) + 0" using e by (simp add: algebra_simps)
    have "(x + 1) div k = x div k + 1" using int_div_pos_eq [OF e'] k by simp
    moreover have "(x + 1) mod k = 0" using int_mod_pos_eq [OF e'] k by simp
    ultimately show ?thesis by simp
  next
    case False
    then have lt: "x mod k + 1 < k" using r by linarith
    have "(x + 1) div k = x div k" using int_div_pos_eq [OF e _ lt] r by simp
    moreover have "(x + 1) mod k = x mod k + 1" using int_mod_pos_eq [OF e _ lt] r by simp
    ultimately show ?thesis using r by simp
  qed
qed

lemma mod_shift: "((y::int) - k * c) mod k = y mod k"
  using mod_mult_self2 [of y k "- c"] by simp

lemma div_step_shift:
  fixes y k c :: int
  assumes "0 < k"
  shows "(y + 1 - (k * c + 1)) div k = (y - (k * c + 1)) div k + (if y mod k = 0 then 1 else 0)"
proof -
  have e: "y + 1 - (k * c + 1) = (y - (k * c + 1)) + 1" by simp
  have "(y - (k * c + 1) + 1) mod k = (y - k * c) mod k" by simp
  then have m: "(y - (k * c + 1) + 1) mod k = y mod k" by (simp only: mod_shift)
  show ?thesis unfolding e div_step [OF assms, of "y - (k * c + 1)"] m ..
qed

lemma mod_100_4: "(y::int) mod 100 = 0 \<Longrightarrow> y mod 4 = 0"
  using mod_mod_cancel [of 4 100 y] by simp

lemma mod_400_100: "(y::int) mod 400 = 0 \<Longrightarrow> y mod 100 = 0"
  using mod_mod_cancel [of 100 400 y] by simp

lemma leap_glue:
  fixes y A B C :: int
  assumes "p100 \<Longrightarrow> p4" "p400 \<Longrightarrow> p100"
  shows "365 * (y + 1 - 1970) + (A + (if p4 then 1 else 0)) - (B + (if p100 then 1 else 0))
           + (C + (if p400 then 1 else 0))
         = 365 * (y - 1970) + A - B + C
           + (if \<not> p4 then 365 else if \<not> p100 then 366 else if \<not> p400 then 365 else 366)"
  using assms by (cases p4; cases p100; cases p400) simp_all

lemma DayFromYear_step: "DayFromYear (y + 1) = DayFromYear y + DaysInYear y"
proof -
  have n: "(4::int) * 492 + 1 = 1969" "(100::int) * 19 + 1 = 1901" "(400::int) * 4 + 1 = 1601"
    by simp_all
  have p: "(0::int) < 4" "(0::int) < 100" "(0::int) < 400" by simp_all
  note a = div_step_shift [OF p(1), of y 492, unfolded n]
  note b = div_step_shift [OF p(2), of y 19, unfolded n]
  note c = div_step_shift [OF p(3), of y 4, unfolded n]
  show ?thesis
    unfolding DayFromYear_def DaysInYear_def a b c
    by (rule leap_glue [OF mod_100_4 mod_400_100])
qed

lemma DaysInYear_pos: "365 \<le> DaysInYear y" "DaysInYear y \<le> 366"
  by (simp_all add: DaysInYear_def)

lemma DayFromYear_mono: "a \<le> b \<Longrightarrow> DayFromYear a \<le> DayFromYear b"
proof (induction "nat (b - a)" arbitrary: b)
  case 0
  then show ?case by simp
next
  case (Suc n)
  then have "n = nat ((b - 1) - a)" "a \<le> b - 1" by linarith+
  then have "DayFromYear a \<le> DayFromYear (b - 1)" using Suc.hyps(1) by blast
  moreover have "DayFromYear b = DayFromYear (b - 1) + DaysInYear (b - 1)"
    using DayFromYear_step [of "b - 1"] by simp
  ultimately show ?case using DaysInYear_pos(1) [of "b - 1"] by linarith
qed

lemma DayFromYear_strict: "a < b \<Longrightarrow> DayFromYear a < DayFromYear b"
proof -
  assume "a < b"
  then have "DayFromYear (a + 1) \<le> DayFromYear b" by (intro DayFromYear_mono) simp
  then show ?thesis using DayFromYear_step [of a] DaysInYear_pos(1) [of a] by linarith
qed

lemma yearSearch_correct:
  "y0 \<le> y \<Longrightarrow> DayFromYear y \<le> day \<Longrightarrow> day < DayFromYear (y + 1) \<Longrightarrow> yearSearch day y0 = y"
proof (induction "nat (y - y0)" arbitrary: y0)
  case 0
  then have "y0 = y" by simp
  then show ?case using 0 by (subst yearSearch.simps) simp
next
  case (Suc n)
  then have lt: "y0 < y" by linarith
  then have "DayFromYear (y0 + 1) \<le> DayFromYear y" by (intro DayFromYear_mono) simp
  then have go: "DayFromYear (y0 + 1) \<le> day" using Suc.prems by linarith
  have "n = nat (y - (y0 + 1))" using Suc.hyps(2) by linarith
  then have "yearSearch day (y0 + 1) = y" using Suc.hyps(1) [of "y0 + 1"] lt Suc.prems by simp
  then show ?case using go by (subst yearSearch.simps) simp
qed

lemma DayFromYear_1970: "DayFromYear 1970 = 0"
  by (simp add: DayFromYear_def)

lemma DayFromYear_upper: "DayFromYear (1970 + int n) \<le> 366 * int n"
proof (induction n)
  case 0
  then show ?case by (simp add: DayFromYear_1970)
next
  case (Suc n)
  have "DayFromYear (1970 + int (Suc n)) = DayFromYear (1970 + int n) + DaysInYear (1970 + int n)"
    using DayFromYear_step [of "1970 + int n"] by (simp add: algebra_simps)
  then show ?case using Suc DaysInYear_pos(2) [of "1970 + int n"] by simp
qed

lemma DayFromYear_lower: "DayFromYear (1970 - int n) \<le> - 365 * int n"
proof (induction n)
  case 0
  then show ?case by (simp add: DayFromYear_1970)
next
  case (Suc n)
  have "DayFromYear (1970 - int n) = DayFromYear (1970 - int (Suc n)) + DaysInYear (1970 - int (Suc n))"
    using DayFromYear_step [of "1970 - int (Suc n)"] by (simp add: algebra_simps)
  then show ?case using Suc DaysInYear_pos(1) [of "1970 - int (Suc n)"] by simp
qed

lemma div_mult_le_int: "(0::int) < k \<Longrightarrow> k * (a div k) \<le> a"
proof -
  assume k: "0 < k"
  have "a = k * (a div k) + a mod k" by simp
  moreover have "0 \<le> a mod k" using k by simp
  ultimately show ?thesis by linarith
qed

lemma yearStart_le:
  "DayFromYear (1970 + (if 0 \<le> day then day div 366 else day div 365)) \<le> day"
proof (cases "0 \<le> day")
  case True
  define q where "q = day div 366"
  have q0: "0 \<le> q" using True by (simp add: q_def pos_imp_zdiv_nonneg_iff)
  have "366 * q \<le> day" unfolding q_def by (rule div_mult_le_int) simp
  moreover have "DayFromYear (1970 + q) \<le> 366 * q"
    using DayFromYear_upper [of "nat q"] q0 by simp
  ultimately show ?thesis using True unfolding q_def by simp
next
  case False
  define q where "q = day div 365"
  have q0: "q < 0" using False by (simp add: q_def div_neg_pos_less0)
  have "365 * q \<le> day" unfolding q_def by (rule div_mult_le_int) simp
  moreover have "DayFromYear (1970 + q) \<le> 365 * q"
    using DayFromYear_lower [of "nat (- q)"] q0 by simp
  ultimately show ?thesis using False unfolding q_def by simp
qed

lemma YearFromDay_correct:
  assumes "DayFromYear y \<le> day" "day < DayFromYear (y + 1)"
  shows "YearFromDay day = y"
proof -
  define y0 where "y0 = 1970 + (if 0 \<le> day then day div 366 else day div 365)"
  have s: "DayFromYear y0 \<le> day" unfolding y0_def by (rule yearStart_le)
  have "y0 \<le> y"
  proof (rule ccontr)
    assume "\<not> y0 \<le> y"
    then have "y + 1 \<le> y0" by simp
    then have "DayFromYear (y + 1) \<le> DayFromYear y0" by (rule DayFromYear_mono)
    then show False using s assms(2) by linarith
  qed
  then have "yearSearch day y0 = y" using assms by (rule yearSearch_correct)
  then show ?thesis by (simp add: YearFromDay_def y0_def)
qed

lemma Day_times: "Day (x * msPerDay) = x"
  by (simp add: Day_def msPerDay_def)

lemma year_fields:
  assumes "0 \<le> dwy" "dwy < DaysInYear y"
  shows "YearFromTime ((DayFromYear y + dwy) * msPerDay) = y"
    and "DayWithinYear ((DayFromYear y + dwy) * msPerDay) = dwy"
    and "InLeapYear ((DayFromYear y + dwy) * msPerDay) = (if DaysInYear y = 365 then 0 else 1)"
proof -
  have "DayFromYear y \<le> DayFromYear y + dwy" using assms by simp
  moreover have "DayFromYear y + dwy < DayFromYear (y + 1)"
    using assms DayFromYear_step [of y] by simp
  ultimately have y: "YearFromDay (DayFromYear y + dwy) = y" by (rule YearFromDay_correct)
  show a: "YearFromTime ((DayFromYear y + dwy) * msPerDay) = y"
    by (simp add: YearFromTime_def Day_times y)
  show "DayWithinYear ((DayFromYear y + dwy) * msPerDay) = dwy"
    by (simp add: DayWithinYear_def a Day_times)
  show "InLeapYear ((DayFromYear y + dwy) * msPerDay) = (if DaysInYear y = 365 then 0 else 1)"
    by (simp add: InLeapYear_def a)
qed

lemma monthStart_values:
  "monthStart l 0 = 0" "monthStart l 1 = 31" "monthStart l 2 = 59 + l" "monthStart l 3 = 90 + l"
  "monthStart l 4 = 120 + l" "monthStart l 5 = 151 + l" "monthStart l 6 = 181 + l"
  "monthStart l 7 = 212 + l" "monthStart l 8 = 243 + l" "monthStart l 9 = 273 + l"
  "monthStart l 10 = 304 + l" "monthStart l 11 = 334 + l"
  by (simp_all add: monthStart_def)

lemma month_cases: "0 \<le> (m::int) \<Longrightarrow> m \<le> 11 \<Longrightarrow>
   m = 0 \<or> m = 1 \<or> m = 2 \<or> m = 3 \<or> m = 4 \<or> m = 5 \<or> m = 6 \<or> m = 7 \<or> m = 8 \<or> m = 9 \<or> m = 10 \<or> m = 11"
  by arith

lemma month_date_fields:
  assumes leap: "InLeapYear t = leap" "leap = 0 \<or> leap = 1"
      and m: "0 \<le> m0" "m0 \<le> 11" and d: "1 \<le> d" "d \<le> 31"
      and dwy: "DayWithinYear t = monthStart leap m0 + d - 1"
  shows "(MonthFromTime t = m0 \<and> DateFromTime t = d) \<longleftrightarrow> d \<le> monthLength leap m0"
proof -
  have mf: "MonthFromTime t =
      (let d = monthStart leap m0 + d - 1
      in if d < 31 then 0
         else if d < 59 + leap then 1
         else if d < 90 + leap then 2
         else if d < 120 + leap then 3
         else if d < 151 + leap then 4
         else if d < 181 + leap then 5
         else if d < 212 + leap then 6
         else if d < 243 + leap then 7
         else if d < 273 + leap then 8
         else if d < 304 + leap then 9
         else if d < 334 + leap then 10
         else 11)"
    by (simp only: MonthFromTime_def dwy leap(1) Let_def)
  have df: "DateFromTime t = monthStart leap m0 + d - 1 - monthStart leap (MonthFromTime t) + 1"
    unfolding DateFromTime_def dwy leap(1) ..
  from month_cases [OF m] show ?thesis
    apply (elim disjE)
    using leap(2) d
    by (auto simp: mf df monthStart_values monthLength_def Let_def)
qed

lemma DaysInYear_leap: "DaysInYear (int y) = (if isLeapYear y then 366 else 365)"
proof -
  have m: "int y mod 4 = int (y mod 4)" "int y mod 100 = int (y mod 100)"
    "int y mod 400 = int (y mod 400)"
    by (simp_all add: zmod_int)
  have z: "\<And>n. (int n \<noteq> 0) = (n \<noteq> 0)" by simp
  show ?thesis
    unfolding DaysInYear_def isLeapYear_def m z
    using mod_mod_cancel [of 4 100 y] mod_mod_cancel [of 100 400 y]
    by (cases "y mod 4 = 0"; cases "y mod 100 = 0"; cases "y mod 400 = 0") simp_all
qed

lemma dwy_bound:
  assumes "leap = 0 \<or> leap = 1" "0 \<le> m0" "m0 \<le> 11" "1 \<le> d" "d \<le> 31"
  shows "0 \<le> monthStart leap m0 + d - 1" "monthStart leap m0 + d - 1 < 365 + leap"
  using month_cases [OF assms(2,3)] assms(1,4,5)
  by (auto simp: monthStart_values)

lemma monthLength_daysInMonth:
  "1 \<le> m \<Longrightarrow> m \<le> 12 \<Longrightarrow>
   monthLength (if isLeapYear y then 1 else 0) (int m - 1) = int (daysInMonth y m)"
  by (auto simp: monthLength_def daysInMonth_def)

lemma daysInMonth_le: "daysInMonth y m \<le> 31"
  by (simp add: daysInMonth_def)

lemma isValidDateParts_iff:
  "isValidDateParts y m d \<longleftrightarrow>
     1000 \<le> y \<and> y \<le> 9999 \<and> 1 \<le> m \<and> m \<le> 12 \<and> 1 \<le> d \<and> d \<le> daysInMonth y m"
proof (cases "1000 \<le> y \<and> y \<le> 9999 \<and> 1 \<le> m \<and> m \<le> 12 \<and> 1 \<le> d \<and> d \<le> 31")
  case False
  then have "\<not> isValidDateParts y m d" by (auto simp: isValidDateParts_def)
  moreover have "\<not> (1000 \<le> y \<and> y \<le> 9999 \<and> 1 \<le> m \<and> m \<le> 12 \<and> 1 \<le> d \<and> d \<le> daysInMonth y m)"
    using False daysInMonth_le [of y m] by linarith
  ultimately show ?thesis by blast
next
  case True
  define leap :: int where "leap = (if isLeapYear y then 1 else 0)"
  define m0 where "m0 = int m - 1"
  define dwy where "dwy = monthStart leap m0 + int d - 1"
  have l01: "leap = 0 \<or> leap = 1" by (simp add: leap_def)
  have m0: "0 \<le> m0" "m0 \<le> 11" using True by (simp_all add: m0_def)
  have d: "1 \<le> int d" "int d \<le> 31" using True by simp_all
  have diy: "DaysInYear (int y) = 365 + leap" by (simp add: DaysInYear_leap leap_def)
  have lp: "(if DaysInYear (int y) = 365 then 0 else 1) = leap"
    by (simp add: DaysInYear_leap leap_def)
  have b: "0 \<le> dwy" "dwy < DaysInYear (int y)"
    unfolding dwy_def diy using dwy_bound [OF l01 m0 d] by simp_all
  have md: "m0 div 12 = 0" "m0 mod 12 = m0" using m0 by simp_all
  have t: "DateUTC (int y) (int m - 1) (int d) = (DayFromYear (int y) + dwy) * msPerDay"
    using True by (simp add: DateUTC_def MakeDay_def Let_def m0_def [symmetric] md lp dwy_def)
  note yf = year_fields [OF b]
  have leapT: "InLeapYear ((DayFromYear (int y) + dwy) * msPerDay) = leap"
    using yf(3) lp by simp
  have md: "(MonthFromTime ((DayFromYear (int y) + dwy) * msPerDay) = m0
             \<and> DateFromTime ((DayFromYear (int y) + dwy) * msPerDay) = int d)
            \<longleftrightarrow> int d \<le> monthLength leap m0"
    using month_date_fields [OF leapT l01 m0 d] yf(2) by (simp add: dwy_def)
  have ml: "monthLength leap m0 = int (daysInMonth y m)"
    unfolding leap_def m0_def using True by (intro monthLength_daysInMonth) simp_all
  have "isValidDateParts y m d \<longleftrightarrow>
      (YearFromTime ((DayFromYear (int y) + dwy) * msPerDay) = int y
       \<and> MonthFromTime ((DayFromYear (int y) + dwy) * msPerDay) = m0
       \<and> DateFromTime ((DayFromYear (int y) + dwy) * msPerDay) = int d)"
    using True
    by (simp add: isValidDateParts_def Let_def getUTCFullYear_def getUTCMonth_def getUTCDate_def t m0_def)
  also have "\<dots> \<longleftrightarrow> int d \<le> monthLength leap m0" using yf(1) md by simp
  also have "\<dots> \<longleftrightarrow> d \<le> daysInMonth y m" unfolding ml by simp
  finally show ?thesis using True by simp
qed

section \<open>Facts about digit strings and the date patterns\<close>

lemma isDigit_digitChar: "d < 10 \<Longrightarrow> isDigit (digitChar d)"
  by (simp add: isDigit_def digitChar_def)

lemma digitVal_digitChar: "d < 10 \<Longrightarrow> digitVal (digitChar d) = d"
  by (simp add: digitVal_def digitChar_def)

lemma toStringAcc_append: "toStringAcc n acc = toStringAcc n [] @ acc"
proof (induction n arbitrary: acc rule: less_induct)
  case (less n)
  show ?case
  proof (cases "n < 10")
    case True
    then show ?thesis by (simp add: toStringAcc.simps)
  next
    case False
    then have lt: "n div 10 < n" by simp
    have "toStringAcc n acc = toStringAcc (n div 10) (digitChar (n mod 10) # acc)"
      using False by (subst toStringAcc.simps) simp
    also have "\<dots> = toStringAcc (n div 10) [] @ (digitChar (n mod 10) # acc)"
      using less.IH [OF lt] .
    also have "\<dots> = (toStringAcc (n div 10) [] @ [digitChar (n mod 10)]) @ acc" by simp
    also have "toStringAcc (n div 10) [] @ [digitChar (n mod 10)]
                 = toStringAcc (n div 10) [digitChar (n mod 10)]"
      using less.IH [OF lt, of "[digitChar (n mod 10)]"] by simp
    also have "\<dots> = toStringAcc n []"
      using False by (subst (2) toStringAcc.simps) simp
    finally show ?thesis .
  qed
qed

lemma toString_small: "n < 10 \<Longrightarrow> toString n = [digitChar n]"
  by (simp add: toString_def toStringAcc.simps)

lemma toString_step: "10 \<le> n \<Longrightarrow> toString n = toString (n div 10) @ [digitChar (n mod 10)]"
proof -
  assume "10 \<le> n"
  then have "toString n = toStringAcc (n div 10) [digitChar (n mod 10)]"
    unfolding toString_def by (subst toStringAcc.simps) simp
  then show ?thesis
    unfolding toString_def using toStringAcc_append [of "n div 10" "[digitChar (n mod 10)]"] by simp
qed

lemma digitsToNumber_snoc: "digitsToNumber (s @ [c]) = 10 * digitsToNumber s + digitVal c"
  by (simp add: digitsToNumber_def)

lemma toString_props:
  "list_all isDigit (toString n) \<and> toString n \<noteq> [] \<and> digitsToNumber (toString n) = n"
proof (induction n rule: less_induct)
  case (less n)
  show ?case
  proof (cases "n < 10")
    case True
    then show ?thesis
      by (simp add: toString_small isDigit_digitChar digitsToNumber_def digitVal_digitChar)
  next
    case False
    then have lt: "n div 10 < n" by simp
    have s: "toString n = toString (n div 10) @ [digitChar (n mod 10)]"
      using False by (intro toString_step) simp
    show ?thesis
      unfolding s using less.IH [OF lt]
      by (simp add: digitsToNumber_snoc isDigit_digitChar digitVal_digitChar)
  qed
qed

lemma toString_length:
  "n < 10 \<Longrightarrow> length (toString n) = 1"
  "10 \<le> n \<Longrightarrow> n < 100 \<Longrightarrow> length (toString n) = 2"
  "100 \<le> n \<Longrightarrow> n < 1000 \<Longrightarrow> length (toString n) = 3"
  "1000 \<le> n \<Longrightarrow> n < 10000 \<Longrightarrow> length (toString n) = 4"
proof -
  show a: "\<And>n. n < 10 \<Longrightarrow> length (toString n) = 1" by (simp add: toString_small)
  show b: "\<And>n. 10 \<le> n \<Longrightarrow> n < 100 \<Longrightarrow> length (toString n) = 2"
    using a by (simp add: toString_step)
  show c: "\<And>n. 100 \<le> n \<Longrightarrow> n < 1000 \<Longrightarrow> length (toString n) = 3"
    using b by (simp add: toString_step)
  show "1000 \<le> n \<Longrightarrow> n < 10000 \<Longrightarrow> length (toString n) = 4"
    using c by (simp add: toString_step)
qed

lemma digitsToNumber_append:
  "digitsToNumber (a @ b) = foldl (\<lambda>n c. 10 * n + digitVal c) (digitsToNumber a) b"
  by (simp add: digitsToNumber_def)

lemma digitsToNumber_zeros: "digitsToNumber (replicate k CHR ''0'') = 0"
  by (induction k) (simp_all add: digitsToNumber_def digitVal_def)

lemma digitsToNumber_padStart: "digitsToNumber (padStart k CHR ''0'' s) = digitsToNumber s"
  by (simp add: padStart_def digitsToNumber_append digitsToNumber_zeros) (simp add: digitsToNumber_def)

lemma isDigit_zero: "isDigit CHR ''0''"
  by (simp add: isDigit_def)

lemma padStart_digits: "list_all isDigit s \<Longrightarrow> list_all isDigit (padStart k CHR ''0'' s)"
  by (auto simp: padStart_def list_all_iff isDigit_zero)

lemma padStart_length: "length (padStart k c s) = max k (length s)"
  by (simp add: padStart_def)

lemma digitsToNumber_bound: "list_all isDigit s \<Longrightarrow> digitsToNumber s < 10 ^ length s"
proof (induction s rule: rev_induct)
  case Nil
  then show ?case by (simp add: digitsToNumber_def)
next
  case (snoc c s)
  then have "digitVal c < 10" by (auto simp: isDigit_def digitVal_def)
  moreover have "digitsToNumber s < 10 ^ length s" using snoc by simp
  ultimately show ?case by (simp add: digitsToNumber_snoc)
qed

lemma not_digit_slash: "\<not> isDigit CHR ''/''" "\<not> isDigit CHR ''-''"
  by (simp_all add: isDigit_def)

lemma digit_not_space: "isDigit c \<Longrightarrow> \<not> isSpace c"
  by (auto simp: isDigit_def isSpace_def)

lemma takeWhile_digits:
  "list_all P xs \<Longrightarrow> \<not> P c \<Longrightarrow> takeWhile P (xs @ c # ys) = xs \<and> dropWhile P (xs @ c # ys) = c # ys"
  by (induction xs) auto

lemma matchMDY_Some_iff:
  "matchMDY P raw = Some (g1, g2, g3) \<longleftrightarrow>
     raw = g1 @ ''/'' @ g2 @ ''/'' @ g3
     \<and> list_all isDigit g1 \<and> (length g1 = 1 \<or> length g1 = 2)
     \<and> list_all isDigit g2 \<and> (length g2 = 1 \<or> length g2 = 2)
     \<and> list_all isDigit g3 \<and> P (length g3)"
proof
  assume r: "raw = g1 @ ''/'' @ g2 @ ''/'' @ g3
     \<and> list_all isDigit g1 \<and> (length g1 = 1 \<or> length g1 = 2)
     \<and> list_all isDigit g2 \<and> (length g2 = 1 \<or> length g2 = 2)
     \<and> list_all isDigit g3 \<and> P (length g3)"
  have raw: "raw = g1 @ CHR ''/'' # g2 @ CHR ''/'' # g3" using r by simp
  have t1: "takeWhile isDigit raw = g1" "dropWhile isDigit raw = CHR ''/'' # g2 @ CHR ''/'' # g3"
    unfolding raw using r takeWhile_digits [of isDigit g1 "CHR ''/''" "g2 @ CHR ''/'' # g3"] not_digit_slash(1)
    by blast+
  have t2: "takeWhile isDigit (g2 @ CHR ''/'' # g3) = g2"
    "dropWhile isDigit (g2 @ CHR ''/'' # g3) = CHR ''/'' # g3"
    using r takeWhile_digits [of isDigit g2 "CHR ''/''" g3] not_digit_slash(1)
    by blast+
  show "matchMDY P raw = Some (g1, g2, g3)"
    unfolding matchMDY_def Let_def t1 using r by (simp add: t2)
next
  assume m: "matchMDY P raw = Some (g1, g2, g3)"
  let ?a = "takeWhile isDigit raw" and ?r1 = "dropWhile isDigit raw"
  from m obtain r2 where r1: "?r1 = CHR ''/'' # r2" and la: "length ?a = 1 \<or> length ?a = 2"
    unfolding matchMDY_def Let_def by (auto split: if_splits list.splits)
  let ?b = "takeWhile isDigit r2" and ?r3 = "dropWhile isDigit r2"
  from m r1 la obtain r4 where r3: "?r3 = CHR ''/'' # r4" and lb: "length ?b = 1 \<or> length ?b = 2"
    and g: "list_all isDigit r4" "P (length r4)" "g1 = ?a" "g2 = ?b" "g3 = r4"
    unfolding matchMDY_def Let_def by (auto split: if_splits list.splits)
  have "raw = ?a @ ?r1" by simp
  also have "\<dots> = ?a @ CHR ''/'' # (?b @ ?r3)" unfolding r1 by simp
  finally have "raw = g1 @ ''/'' @ g2 @ ''/'' @ g3" unfolding r3 g by simp
  moreover have "list_all isDigit g1" "list_all isDigit g2"
    unfolding g list_all_iff by (auto dest: set_takeWhileD)
  ultimately show "raw = g1 @ ''/'' @ g2 @ ''/'' @ g3
     \<and> list_all isDigit g1 \<and> (length g1 = 1 \<or> length g1 = 2)
     \<and> list_all isDigit g2 \<and> (length g2 = 1 \<or> length g2 = 2)
     \<and> list_all isDigit g3 \<and> P (length g3)"
    using la lb g by simp
qed

lemma parseN8nDate_Some_iff:
  "parseN8nDate raw = Some r \<longleftrightarrow>
     (\<exists>g1 g2 g3. raw = g1 @ ''/'' @ g2 @ ''/'' @ g3
        \<and> list_all isDigit g1 \<and> (length g1 = 1 \<or> length g1 = 2)
        \<and> list_all isDigit g2 \<and> (length g2 = 1 \<or> length g2 = 2)
        \<and> list_all isDigit g3 \<and> length g3 = 2
        \<and> 1 \<le> digitsToNumber g1 \<and> digitsToNumber g1 \<le> 12
        \<and> 1 \<le> digitsToNumber g2
        \<and> digitsToNumber g2 \<le> daysInMonth (2000 + digitsToNumber g3) (digitsToNumber g1)
        \<and> r = \<lparr>isoDate = isoString (2000 + digitsToNumber g3) (digitsToNumber g1) (digitsToNumber g2),
                 format = ''MM/DD/YY''\<rparr>)"
proof
  assume p: "parseN8nDate raw = Some r"
  then obtain g1 g2 g3 where m: "matchMDY (\<lambda>n. n = 2) raw = Some (g1, g2, g3)"
    by (auto simp: parseN8nDate_def split: option.splits)
  have v: "isValidDateParts (2000 + digitsToNumber g3) (digitsToNumber g1) (digitsToNumber g2)"
    and r: "r = \<lparr>isoDate = isoString (2000 + digitsToNumber g3) (digitsToNumber g1) (digitsToNumber g2),
                 format = ''MM/DD/YY''\<rparr>"
    using p m by (auto simp: parseN8nDate_def Let_def split: if_splits)
  show "\<exists>g1 g2 g3. raw = g1 @ ''/'' @ g2 @ ''/'' @ g3
        \<and> list_all isDigit g1 \<and> (length g1 = 1 \<or> length g1 = 2)
        \<and> list_all isDigit g2 \<and> (length g2 = 1 \<or> length g2 = 2)
        \<and> list_all isDigit g3 \<and> length g3 = 2
        \<and> 1 \<le> digitsToNumber g1 \<and> digitsToNumber g1 \<le> 12
        \<and> 1 \<le> digitsToNumber g2
        \<and> digitsToNumber g2 \<le> daysInMonth (2000 + digitsToNumber g3) (digitsToNumber g1)
        \<and> r = \<lparr>isoDate = isoString (2000 + digitsToNumber g3) (digitsToNumber g1) (digitsToNumber g2),
                 format = ''MM/DD/YY''\<rparr>"
    apply (rule exI [of _ g1], rule exI [of _ g2], rule exI [of _ g3])
    using m [unfolded matchMDY_Some_iff] v [unfolded isValidDateParts_iff] r by simp
next
  assume "\<exists>g1 g2 g3. raw = g1 @ ''/'' @ g2 @ ''/'' @ g3
        \<and> list_all isDigit g1 \<and> (length g1 = 1 \<or> length g1 = 2)
        \<and> list_all isDigit g2 \<and> (length g2 = 1 \<or> length g2 = 2)
        \<and> list_all isDigit g3 \<and> length g3 = 2
        \<and> 1 \<le> digitsToNumber g1 \<and> digitsToNumber g1 \<le> 12
        \<and> 1 \<le> digitsToNumber g2
        \<and> digitsToNumber g2 \<le> daysInMonth (2000 + digitsToNumber g3) (digitsToNumber g1)
        \<and> r = \<lparr>isoDate = isoString (2000 + digitsToNumber g3) (digitsToNumber g1) (digitsToNumber g2),
                 format = ''MM/DD/YY''\<rparr>"
  then obtain g1 g2 g3 where
    m: "raw = g1 @ ''/'' @ g2 @ ''/'' @ g3
        \<and> list_all isDigit g1 \<and> (length g1 = 1 \<or> length g1 = 2)
        \<and> list_all isDigit g2 \<and> (length g2 = 1 \<or> length g2 = 2)
        \<and> list_all isDigit g3 \<and> (\<lambda>n. n = 2) (length g3)"
    and c: "1 \<le> digitsToNumber g1" "digitsToNumber g1 \<le> 12" "1 \<le> digitsToNumber g2"
       "digitsToNumber g2 \<le> daysInMonth (2000 + digitsToNumber g3) (digitsToNumber g1)"
    and r: "r = \<lparr>isoDate = isoString (2000 + digitsToNumber g3) (digitsToNumber g1) (digitsToNumber g2),
                 format = ''MM/DD/YY''\<rparr>"
    by auto
  have mm: "matchMDY (\<lambda>n. n = 2) raw = Some (g1, g2, g3)"
    using m by (simp only: matchMDY_Some_iff)
  have "digitsToNumber g3 < 10 ^ length g3" using m by (intro digitsToNumber_bound) simp
  then have "digitsToNumber g3 < 100" using m by simp
  then have v: "isValidDateParts (2000 + digitsToNumber g3) (digitsToNumber g1) (digitsToNumber g2)"
    unfolding isValidDateParts_iff using c by simp
  show "parseN8nDate raw = Some r"
    by (simp add: parseN8nDate_def mm v r Let_def)
qed

lemma matchISO_parts:
  assumes "length Y = 4" "length M = 2" "length D = 2"
    "list_all isDigit Y" "list_all isDigit M" "list_all isDigit D"
  shows "matchISO (Y @ ''-'' @ M @ ''-'' @ D) = Some (Y, M, D)"
  using assms by (simp add: matchISO_def nth_append)

lemma pad2_toString:
  assumes "n < 100"
  shows "length (padStart 2 CHR ''0'' (toString n)) = 2"
    and "list_all isDigit (padStart 2 CHR ''0'' (toString n))"
    and "digitsToNumber (padStart 2 CHR ''0'' (toString n)) = n"
proof -
  have "length (toString n) = 1 \<or> length (toString n) = 2"
    using assms toString_length(1,2) [of n] by (cases "n < 10") simp_all
  then show "length (padStart 2 CHR ''0'' (toString n)) = 2"
    by (auto simp: padStart_length)
  show "list_all isDigit (padStart 2 CHR ''0'' (toString n))"
    using toString_props by (intro padStart_digits) simp
  show "digitsToNumber (padStart 2 CHR ''0'' (toString n)) = n"
    using toString_props by (simp add: digitsToNumber_padStart)
qed

lemma toString_short:
  "n < 100 \<Longrightarrow> length (toString n) = 1 \<or> length (toString n) = 2"
  using toString_length(1,2) [of n] by (cases "n < 10") simp_all

lemma isoToSheetDateLabel_isoString:
  assumes y: "1000 \<le> year" "year \<le> 9999" and m: "month < 100" and d: "day < 100"
  shows "isoToSheetDateLabel (isoString year month day)
         = toString month @ ''/'' @ toString day @ ''/'' @ padStart 2 CHR ''0'' (toString (year mod 100))"
proof -
  have ly: "length (toString year) = 4" using y by (intro toString_length(4)) simp_all
  then have py: "padStart 4 CHR ''0'' (toString year) = toString year" by (simp add: padStart_def)
  have mi: "matchISO (isoString year month day)
      = Some (toString year, padStart 2 CHR ''0'' (toString month), padStart 2 CHR ''0'' (toString day))"
    unfolding isoString_def py
    using ly pad2_toString [OF m] pad2_toString [OF d] toString_props [of year]
    by (intro matchISO_parts) simp_all
  show ?thesis
    unfolding isoToSheetDateLabel_def mi
    using pad2_toString(3) [OF m] pad2_toString(3) [OF d] toString_props [of year]
    by (simp add: Let_def)
qed

lemma trim_digits_ends:
  assumes "s \<noteq> []" "isDigit (hd s)" "isDigit (last s)"
  shows "trim s = s"
  using assms by (intro trim_edgesClean) (simp add: edgesClean_def digit_not_space)

lemma trim_mdy:
  assumes "list_all isDigit g1" "g1 \<noteq> []" "list_all isDigit g3" "g3 \<noteq> []"
  shows "trim (g1 @ ''/'' @ g2 @ ''/'' @ g3) = g1 @ ''/'' @ g2 @ ''/'' @ g3"
proof (rule trim_digits_ends)
  show "g1 @ ''/'' @ g2 @ ''/'' @ g3 \<noteq> []" using assms by simp
  show "isDigit (hd (g1 @ ''/'' @ g2 @ ''/'' @ g3))"
    using assms(1,2) by (cases g1) simp_all
  have "last (g1 @ ''/'' @ g2 @ ''/'' @ g3) = last g3" using assms(4) by simp
  moreover have "isDigit (last g3)" using assms(3,4) by (simp add: list_all_iff)
  ultimately show "isDigit (last (g1 @ ''/'' @ g2 @ ''/'' @ g3))" by simp
qed

lemma parseSheetDate_mdy:
  assumes g: "list_all isDigit g1" "length g1 = 1 \<or> length g1 = 2"
             "list_all isDigit g2" "length g2 = 1 \<or> length g2 = 2"
             "list_all isDigit g3" "length g3 = 2"
      and v: "isValidDateParts (2000 + digitsToNumber g3) (digitsToNumber g1) (digitsToNumber g2)"
  shows "parseSheetDate (g1 @ ''/'' @ g2 @ ''/'' @ g3)
         = Some (Date (DateUTC (int (2000 + digitsToNumber g3)) (int (digitsToNumber g1) - 1)
                   (int (digitsToNumber g2))))"
proof -
  have ne: "g1 \<noteq> []" "g3 \<noteq> []" using g by auto
  have t: "trim (g1 @ ''/'' @ g2 @ ''/'' @ g3) = g1 @ ''/'' @ g2 @ ''/'' @ g3"
    using g ne by (intro trim_mdy)
  have mm: "matchMDY (\<lambda>n. n = 2 \<or> n = 4) (g1 @ ''/'' @ g2 @ ''/'' @ g3) = Some (g1, g2, g3)"
    unfolding matchMDY_Some_iff using g by simp
  show ?thesis
    unfolding parseSheetDate_def t mm using g(6) v by (simp add: Let_def)
qed

section \<open>The command date\<close>

text \<open>
  C5. \<open>parseN8nDate\<close> accepts exactly the strings \<open>M/D/YY\<close> with one or two digits for the
  month and for the day and exactly two for the year, whose month is 1 .. 12 and whose day
  exists in that month of the year \<open>2000 + YY\<close>; the result is the ISO date of that year,
  month and day. A day that the calendar does not have is rejected, not clamped:
  "02/30/26" and "13/01/26" fail, "2/5/26" succeeds and equals "02/05/26".
\<close>

theorem parseN8nDate_strict:
  "(parseN8nDate raw = Some r \<longleftrightarrow>
     (\<exists>g1 g2 g3. raw = g1 @ ''/'' @ g2 @ ''/'' @ g3
        \<and> list_all isDigit g1 \<and> (length g1 = 1 \<or> length g1 = 2)
        \<and> list_all isDigit g2 \<and> (length g2 = 1 \<or> length g2 = 2)
        \<and> list_all isDigit g3 \<and> length g3 = 2
        \<and> 1 \<le> digitsToNumber g1 \<and> digitsToNumber g1 \<le> 12
        \<and> 1 \<le> digitsToNumber g2
        \<and> digitsToNumber g2 \<le> daysInMonth (2000 + digitsToNumber g3) (digitsToNumber g1)
        \<and> r = \<lparr>isoDate = isoString (2000 + digitsToNumber g3) (digitsToNumber g1) (digitsToNumber g2),
                 format = ''MM/DD/YY''\<rparr>))
   \<and> parseN8nDate ''02/30/26'' = None
   \<and> parseN8nDate ''13/01/26'' = None
   \<and> parseN8nDate ''2/5/26'' = Some \<lparr>isoDate = ''2026-02-05'', format = ''MM/DD/YY''\<rparr>
   \<and> parseN8nDate ''2/5/26'' = parseN8nDate ''02/05/26''
   \<and> parseN8nDate ''04/31/26'' = None
   \<and> parseN8nDate ''2/5/2026'' = None"
proof -
  have e1: "parseN8nDate ''02/30/26'' = None" by code_simp
  have e2: "parseN8nDate ''13/01/26'' = None" by code_simp
  have e3: "parseN8nDate ''2/5/26'' = Some \<lparr>isoDate = ''2026-02-05'', format = ''MM/DD/YY''\<rparr>"
    by code_simp
  have e4: "parseN8nDate ''02/05/26'' = Some \<lparr>isoDate = ''2026-02-05'', format = ''MM/DD/YY''\<rparr>"
    by code_simp
  have e5: "parseN8nDate ''04/31/26'' = None" by code_simp
  have e6: "parseN8nDate ''2/5/2026'' = None" by code_simp
  have e34: "parseN8nDate ''2/5/26'' = parseN8nDate ''02/05/26''" unfolding e3 e4 ..
  show ?thesis by (intro conjI parseN8nDate_Some_iff e1 e2 e3 e34 e5 e6)
qed

theorem parseN8nDate_strict_witness:
  "parseN8nDate ''12/31/99'' = Some \<lparr>isoDate = ''2099-12-31'', format = ''MM/DD/YY''\<rparr>"
proof -
  have n: "digitsToNumber ''12'' = 12" "digitsToNumber ''31'' = 31" "digitsToNumber ''99'' = 99"
    by code_simp+
  have dm: "daysInMonth 2099 12 = 31" by code_simp
  have iso: "isoString 2099 12 31 = ''2099-12-31''" by code_simp
  have dg: "list_all isDigit ''12''" "list_all isDigit ''31''" "list_all isDigit ''99''"
    by code_simp+
  have "\<exists>g1 g2 g3. ''12/31/99'' = g1 @ ''/'' @ g2 @ ''/'' @ g3
        \<and> list_all isDigit g1 \<and> (length g1 = 1 \<or> length g1 = 2)
        \<and> list_all isDigit g2 \<and> (length g2 = 1 \<or> length g2 = 2)
        \<and> list_all isDigit g3 \<and> length g3 = 2
        \<and> 1 \<le> digitsToNumber g1 \<and> digitsToNumber g1 \<le> 12
        \<and> 1 \<le> digitsToNumber g2
        \<and> digitsToNumber g2 \<le> daysInMonth (2000 + digitsToNumber g3) (digitsToNumber g1)
        \<and> \<lparr>isoDate = ''2099-12-31'', format = ''MM/DD/YY''\<rparr>
            = \<lparr>isoDate = isoString (2000 + digitsToNumber g3) (digitsToNumber g1) (digitsToNumber g2),
                 format = ''MM/DD/YY''\<rparr>"
    apply (rule exI [of _ "''12''"], rule exI [of _ "''31''"], rule exI [of _ "''99''"])
    using dg by (simp add: n dm iso)
  then show ?thesis
    using parseN8nDate_strict [of "''12/31/99''" "\<lparr>isoDate = ''2099-12-31'', format = ''MM/DD/YY''\<rparr>",
        THEN conjunct1]
    by blast
qed

section \<open>Parsing, formatting and parsing again\<close>

text \<open>
  C4. If \<open>parseN8nDate\<close> accepts a string, with month, day and two-digit year read from its
  three groups, then the ISO date it returns is formatted by \<open>isoToSheetDateLabel\<close> as
  \<open>M/D/YY\<close> without padding of month and day, and \<open>parseSheetDate\<close> reads that label as the
  date whose UTC year, month and day are \<open>2000 + YY\<close>, the month and the day of the command:
  the same date that \<open>parseSheetDate\<close> reads from the command string itself.
\<close>

theorem parse_format_parse_roundtrip:
  assumes p: "parseN8nDate raw = Some r"
  shows "\<exists>g1 g2 g3. matchMDY (\<lambda>n. n = 2) raw = Some (g1, g2, g3)
      \<and> isoDate r = isoString (2000 + digitsToNumber g3) (digitsToNumber g1) (digitsToNumber g2)
      \<and> isoToSheetDateLabel (isoDate r)
          = toString (digitsToNumber g1) @ ''/'' @ toString (digitsToNumber g2) @ ''/''
              @ padStart 2 CHR ''0'' (toString (digitsToNumber g3))
      \<and> parseSheetDate (isoToSheetDateLabel (isoDate r))
          = Some (Date (DateUTC (int (2000 + digitsToNumber g3)) (int (digitsToNumber g1) - 1)
                   (int (digitsToNumber g2))))
      \<and> parseSheetDate raw = parseSheetDate (isoToSheetDateLabel (isoDate r))
      \<and> getUTCFullYear (Date (DateUTC (int (2000 + digitsToNumber g3)) (int (digitsToNumber g1) - 1)
                   (int (digitsToNumber g2)))) = int (2000 + digitsToNumber g3)
      \<and> getUTCMonth (Date (DateUTC (int (2000 + digitsToNumber g3)) (int (digitsToNumber g1) - 1)
                   (int (digitsToNumber g2)))) = int (digitsToNumber g1) - 1
      \<and> getUTCDate (Date (DateUTC (int (2000 + digitsToNumber g3)) (int (digitsToNumber g1) - 1)
                   (int (digitsToNumber g2)))) = int (digitsToNumber g2)"
proof -
  from p obtain g1 g2 g3 where m: "matchMDY (\<lambda>n. n = 2) raw = Some (g1, g2, g3)"
    by (auto simp: parseN8nDate_def split: option.splits)
  define month where "month = digitsToNumber g1"
  define day where "day = digitsToNumber g2"
  define yy where "yy = digitsToNumber g3"
  have v: "isValidDateParts (2000 + yy) month day"
    and r: "isoDate r = isoString (2000 + yy) month day"
    using p m by (auto simp: parseN8nDate_def Let_def month_def day_def yy_def split: if_splits)
  note mi = m [unfolded matchMDY_Some_iff]
  have raw: "raw = g1 @ ''/'' @ g2 @ ''/'' @ g3" using mi by simp
  have "yy < 10 ^ length g3" unfolding yy_def using mi by (intro digitsToNumber_bound) simp
  then have yy: "yy < 100" using mi by simp
  have b: "1 \<le> month" "month \<le> 12" "1 \<le> day" "day \<le> 31"
    using v [unfolded isValidDateParts_iff] daysInMonth_le [of "2000 + yy" month] by simp_all
  have "(2000 + yy) mod 100 = (yy + 100 * 20) mod 100" by (simp add: add.commute)
  also have "\<dots> = yy mod 100" by (simp only: mod_mult_self2)
  also have "\<dots> = yy" using yy by simp
  finally have ymod: "(2000 + yy) mod 100 = yy" .
  have lab: "isoToSheetDateLabel (isoDate r)
      = toString month @ ''/'' @ toString day @ ''/'' @ padStart 2 CHR ''0'' (toString yy)"
    unfolding r using yy b isoToSheetDateLabel_isoString [of "2000 + yy" month day]
    by (simp add: ymod)
  have tm: "list_all isDigit (toString month)" "digitsToNumber (toString month) = month"
    "list_all isDigit (toString day)" "digitsToNumber (toString day) = day"
    using toString_props by simp_all
  have v': "isValidDateParts (2000 + digitsToNumber (padStart 2 CHR ''0'' (toString yy)))
      (digitsToNumber (toString month)) (digitsToNumber (toString day))"
    using v pad2_toString(3) [OF yy] tm by simp
  have ps: "parseSheetDate (isoToSheetDateLabel (isoDate r))
          = Some (Date (DateUTC (int (2000 + yy)) (int month - 1) (int day)))"
    unfolding lab
    using parseSheetDate_mdy [OF tm(1) toString_short tm(3) toString_short
        pad2_toString(2) [OF yy] pad2_toString(1) [OF yy] v'] b
      pad2_toString(3) [OF yy] tm
    by simp
  have pr: "parseSheetDate raw = Some (Date (DateUTC (int (2000 + yy)) (int month - 1) (int day)))"
    unfolding raw
    using parseSheetDate_mdy [of g1 g2 g3] mi v
    by (simp add: month_def day_def yy_def)
  have gt: "getUTCFullYear (Date (DateUTC (int (2000 + yy)) (int month - 1) (int day))) = int (2000 + yy)"
    "getUTCMonth (Date (DateUTC (int (2000 + yy)) (int month - 1) (int day))) = int month - 1"
    "getUTCDate (Date (DateUTC (int (2000 + yy)) (int month - 1) (int day))) = int day"
    using v b yy by (simp_all add: isValidDateParts_def Let_def)
  show ?thesis
    apply (rule exI [of _ g1], rule exI [of _ g2], rule exI [of _ g3])
    using m r lab ps pr gt unfolding month_def day_def yy_def
    by (intro conjI) simp_all
qed

theorem parse_format_parse_roundtrip_witness:
  "parseN8nDate ''02/05/26'' = Some \<lparr>isoDate = ''2026-02-05'', format = ''MM/DD/YY''\<rparr>
   \<and> isoToSheetDateLabel ''2026-02-05'' = ''2/5/26''
   \<and> parseSheetDate ''2/5/26'' = Some (Date 1770249600000)
   \<and> parseSheetDate ''02/05/26'' = Some (Date 1770249600000)
   \<and> getUTCFullYear (Date 1770249600000) = 2026
   \<and> getUTCMonth (Date 1770249600000) = 1
   \<and> getUTCDate (Date 1770249600000) = 5"
proof -
  let ?r = "\<lparr>isoDate = ''2026-02-05'', format = ''MM/DD/YY''\<rparr>"
  have p: "parseN8nDate ''02/05/26'' = Some ?r" by code_simp
  have m: "matchMDY (\<lambda>n. n = 2) ''02/05/26'' = Some (''02'', ''05'', ''26'')" by code_simp
  have n: "digitsToNumber ''02'' = 2" "digitsToNumber ''05'' = 5" "digitsToNumber ''26'' = 26"
    by code_simp+
  have s: "toString 2 @ ''/'' @ toString 5 @ ''/'' @ padStart 2 CHR ''0'' (toString 26) = ''2/5/26''"
    by code_simp
  have u: "DateUTC (int (2000 + 26)) (int 2 - 1) (int 5) = 1770249600000" by code_simp
  have i: "int (2000 + 26) = 2026" "int 2 - 1 = 1" "int 5 = 5" by simp_all
  from parse_format_parse_roundtrip [OF p] obtain g1 g2 g3 where
    f: "matchMDY (\<lambda>n. n = 2) ''02/05/26'' = Some (g1, g2, g3)"
      "isoToSheetDateLabel (isoDate ?r)
          = toString (digitsToNumber g1) @ ''/'' @ toString (digitsToNumber g2) @ ''/''
              @ padStart 2 CHR ''0'' (toString (digitsToNumber g3))"
      "parseSheetDate (isoToSheetDateLabel (isoDate ?r))
          = Some (Date (DateUTC (int (2000 + digitsToNumber g3)) (int (digitsToNumber g1) - 1)
                   (int (digitsToNumber g2))))"
      "parseSheetDate ''02/05/26'' = parseSheetDate (isoToSheetDateLabel (isoDate ?r))"
      "getUTCFullYear (Date (DateUTC (int (2000 + digitsToNumber g3)) (int (digitsToNumber g1) - 1)
                   (int (digitsToNumber g2)))) = int (2000 + digitsToNumber g3)"
      "getUTCMonth (Date (DateUTC (int (2000 + digitsToNumber g3)) (int (digitsToNumber g1) - 1)
                   (int (digitsToNumber g2)))) = int (digitsToNumber g1) - 1"
      "getUTCDate (Date (DateUTC (int (2000 + digitsToNumber g3)) (int (digitsToNumber g1) - 1)
                   (int (digitsToNumber g2)))) = int (digitsToNumber g2)"
    by blast
  have g: "g1 = ''02''" "g2 = ''05''" "g3 = ''26''" using f(1) m by simp_all
  have l: "isoToSheetDateLabel ''2026-02-05'' = ''2/5/26''"
    using f(2) unfolding g n s by simp
  have a: "parseSheetDate ''2/5/26'' = Some (Date 1770249600000)"
    using f(3) unfolding g n u by (simp add: l)
  have b: "parseSheetDate ''02/05/26'' = Some (Date 1770249600000)"
    using f(4) a by (simp add: l)
  note gt = f(5,6,7) [unfolded g n u, unfolded i]
  show ?thesis by (intro conjI p l a b gt)
qed

section \<open>Facts about the time series\<close>

lemma parseScore_Some_iff:
  "parseScore toNumber isFiniteNumber raw = Some v \<longleftrightarrow>
     trim (filter (\<lambda>c. c \<noteq> CHR '','') raw) \<noteq> []
     \<and> isFiniteNumber (toNumber (trim (filter (\<lambda>c. c \<noteq> CHR '','') raw)))
     \<and> v = toNumber (trim (filter (\<lambda>c. c \<noteq> CHR '','') raw))"
  by (auto simp: parseScore_def Let_def)

lemma userPointAt_Some_iff:
  "userPointAt toNumber isFiniteNumber header targetRow col = Some (p :: 'n Point) \<longleftrightarrow>
     parseSheetDate (trim (cellAt header col)) = Some (date p)
     \<and> parseScore toNumber isFiniteNumber (trim (cellAt targetRow col)) = Some (val p)
     \<and> label p = trim (cellAt header col)"
  by (cases p) (auto simp: userPointAt_def Let_def split: option.splits)

lemma sortByTime_props:
  "sorted (map (\<lambda>p. getTime (date p)) (sortByTime ps))"
  "mset (sortByTime ps) = mset ps"
  "set (sortByTime ps) = set ps"
  "length (sortByTime ps) = length ps"
  by (simp_all add: sortByTime_def)

lemma find_None_iff2: "find P xs = None \<longleftrightarrow> \<not> (\<exists>x \<in> set xs. P x)"
  by (auto simp: find_None_iff)

lemma set_map_filter: "set (List.map_filter f xs) = {y. \<exists>x \<in> set xs. f x = Some y}"
  by (induction xs) (auto simp: List.map_filter_def)

lemma length_map_filter: "length (List.map_filter f xs) = length (filter (\<lambda>x. f x \<noteq> None) xs)"
  by (induction xs) (auto simp: List.map_filter_def)

lemma getUserPoints_None_iff:
  "getUserPoints toNumber isFiniteNumber rows username = None \<longleftrightarrow>
     \<not> (\<exists>r \<in> set (tl rows). normalizeUsername (cellAt r 0) = normalizeUsername username)"
proof -
  have "getUserPoints toNumber isFiniteNumber rows username = None \<longleftrightarrow>
      find (\<lambda>r. normalizeUsername (cellAt r 0) = normalizeUsername username) (tl rows) = None"
    by (simp add: getUserPoints_def Let_def split: option.splits)
  then show ?thesis by (simp only: find_None_iff2)
qed

lemma getUserPoints_Some:
  fixes toNumber :: "string \<Rightarrow> 'n"
  assumes "getUserPoints toNumber isFiniteNumber rows username = Some res"
  shows "\<exists>targetRow.
      find (\<lambda>r. normalizeUsername (cellAt r 0) = normalizeUsername username) (tl rows) = Some targetRow
      \<and> displayName res = (if 0 < length targetRow then targetRow ! 0 else ''undefined'')
      \<and> points res = sortByTime (List.map_filter
            (userPointAt toNumber isFiniteNumber (headerOf rows) targetRow) [1 ..< length (headerOf rows)])
      \<and> (\<forall>p :: 'n Point. p \<in> set (points res) \<longleftrightarrow>
            (\<exists>col. 1 \<le> col \<and> col < length (headerOf rows)
               \<and> parseSheetDate (trim (cellAt (headerOf rows) col)) = Some (date p)
               \<and> parseScore toNumber isFiniteNumber (trim (cellAt targetRow col)) = Some (val p)
               \<and> label p = trim (cellAt (headerOf rows) col)))
      \<and> length (points res)
          = length (filter (\<lambda>col. parseSheetDate (trim (cellAt (headerOf rows) col)) \<noteq> None
                \<and> parseScore toNumber isFiniteNumber (trim (cellAt targetRow col)) \<noteq> None)
              [1 ..< length (headerOf rows)])
      \<and> sorted (map (\<lambda>p. getTime (date p)) (points res))"
proof -
  from assms obtain targetRow where
    f: "find (\<lambda>r. normalizeUsername (cellAt r 0) = normalizeUsername username) (tl rows) = Some targetRow"
    by (auto simp: getUserPoints_def Let_def split: option.splits)
  let ?cols = "[1 ..< length (headerOf rows)]"
  let ?f = "userPointAt toNumber isFiniteNumber (headerOf rows) targetRow"
  have r: "res = \<lparr>displayName = (if 0 < length targetRow then targetRow ! 0 else ''undefined''),
                  points = sortByTime (List.map_filter ?f ?cols)\<rparr>"
    using assms f by (simp add: getUserPoints_def Let_def)
  have d: "displayName res = (if 0 < length targetRow then targetRow ! 0 else ''undefined'')"
    and p: "points res = sortByTime (List.map_filter ?f ?cols)"
    unfolding r by simp_all
  have s: "\<forall>p :: 'n Point. p \<in> set (points res) \<longleftrightarrow>
            (\<exists>col. 1 \<le> col \<and> col < length (headerOf rows)
               \<and> parseSheetDate (trim (cellAt (headerOf rows) col)) = Some (date p)
               \<and> parseScore toNumber isFiniteNumber (trim (cellAt targetRow col)) = Some (val p)
               \<and> label p = trim (cellAt (headerOf rows) col))"
    unfolding p sortByTime_props(3) set_map_filter
    by (auto simp: userPointAt_Some_iff)
  have fn: "\<And>col. (?f col \<noteq> None) = (parseSheetDate (trim (cellAt (headerOf rows) col)) \<noteq> None
                \<and> parseScore toNumber isFiniteNumber (trim (cellAt targetRow col)) \<noteq> None)"
    by (auto simp: userPointAt_def Let_def split: option.splits)
  have l: "length (points res)
          = length (filter (\<lambda>col. parseSheetDate (trim (cellAt (headerOf rows) col)) \<noteq> None
                \<and> parseScore toNumber isFiniteNumber (trim (cellAt targetRow col)) \<noteq> None) ?cols)"
    unfolding p sortByTime_props(4) length_map_filter fn ..
  have so: "sorted (map (\<lambda>p. getTime (date p)) (points res))"
    unfolding p by (rule sortByTime_props(1))
  show ?thesis
    by (rule exI [of _ targetRow]) (intro conjI f d p s l so)
qed

lemma setAll_Nil [simp]: "setAll m [] = m"
  by (simp add: setAll_def)

lemma setAll_Cons [simp]: "setAll m ((k, v) # es) = setAll (mapSet m k v) es"
  by (simp add: setAll_def)

lemma setAll_keys: "fst ` set (setAll m es) = fst ` set m \<union> fst ` set es"
proof (induction es arbitrary: m)
  case Nil
  then show ?case by simp
next
  case (Cons e es)
  obtain k v where e: "e = (k, v)" by (cases e)
  show ?case unfolding e using Cons [of "mapSet m k v"] by (auto simp: mapSet_keys)
qed

lemma setAll_distinct: "distinct (map fst m) \<Longrightarrow> distinct (map fst (setAll m es))"
proof (induction es arbitrary: m)
  case Nil
  then show ?case by simp
next
  case (Cons e es)
  obtain k v where e: "e = (k, v)" by (cases e)
  show ?case unfolding e using Cons.IH [OF mapSet_distinct [OF Cons.prems]] by simp
qed

lemma mapGet_setAll:
  "mapGet (setAll m es) k = (case map_of (rev es) k of Some v \<Rightarrow> Some v | None \<Rightarrow> mapGet m k)"
proof (induction es arbitrary: m)
  case Nil
  then show ?case by simp
next
  case (Cons e es)
  obtain k' v' where e: "e = (k', v')" by (cases e)
  have r: "map_of (rev (e # es)) k
      = (case map_of (rev es) k of Some v \<Rightarrow> Some v | None \<Rightarrow> (if k = k' then Some v' else None))"
    unfolding e by (simp add: map_add_def split: option.splits)
  have i: "mapGet (setAll m (e # es)) k
      = (case map_of (rev es) k of Some v \<Rightarrow> Some v
         | None \<Rightarrow> (if k = k' then Some v' else mapGet m k))"
  proof -
    have "mapGet (setAll m (e # es)) k = mapGet (setAll (mapSet m k' v') es) k"
      unfolding e by simp
    also have "\<dots> = (case map_of (rev es) k of Some v \<Rightarrow> Some v
         | None \<Rightarrow> mapGet (mapSet m k' v') k)"
      by (rule Cons)
    also have "mapGet (mapSet m k' v') k = (if k = k' then Some v' else mapGet m k)"
      by (rule mapGet_mapSet)
    finally show ?thesis .
  qed
  show ?case unfolding r i by (cases "map_of (rev es) k") simp_all
qed

lemma mapGet_Nil [simp]: "mapGet [] k = None"
  by (simp add: mapGet_def)

lemma mapGet_valueMapOf:
  "mapGet (valueMapOf ps) t = map_of (rev (map (\<lambda>p. (getTime (date p), val p)) ps)) t"
  by (simp add: valueMapOf_def mapGet_setAll split: option.splits)

lemma mapGet_valueMapOf_None:
  "mapGet (valueMapOf ps) t = None \<longleftrightarrow> t \<notin> (\<lambda>p. getTime (date p)) ` set ps"
  by (simp add: mapGet_valueMapOf map_of_eq_None_iff image_image)

lemma mapGet_valueMapOf_distinct:
  assumes "distinct (map (\<lambda>p. getTime (date p)) ps)" "p \<in> set ps"
  shows "mapGet (valueMapOf ps) (getTime (date p)) = Some (val p)"
proof -
  let ?es = "map (\<lambda>p. (getTime (date p), val p)) ps"
  have "map fst (rev ?es) = rev (map (\<lambda>p. getTime (date p)) ps)"
    by (simp add: rev_map comp_def)
  then have d: "distinct (map fst (rev ?es))" using assms(1) by simp
  have "(getTime (date p), val p) \<in> set (rev ?es)" using assms(2) by auto
  then show ?thesis unfolding mapGet_valueMapOf using d by simp
qed

lemma mapGet_valueMapOf_Some:
  "mapGet (valueMapOf ps) t = Some v \<Longrightarrow> \<exists>p \<in> set ps. getTime (date p) = t \<and> val p = v"
  unfolding mapGet_valueMapOf by (auto dest!: map_of_SomeD)

lemma alignTimes_props:
  "sorted (alignTimes A B)" "distinct (alignTimes A B)"
  "set (alignTimes A B) = (\<lambda>p. getTime (date p)) ` (set A \<union> set B)"
proof -
  show "sorted (alignTimes A B)" by (simp add: alignTimes_def)
  have "distinct (map fst (dateMapOf A B))"
    unfolding dateMapOf_def by (intro setAll_distinct) simp
  then show "distinct (alignTimes A B)" by (simp add: alignTimes_def)
  have "set (alignTimes A B) = fst ` set (dateMapOf A B)" by (simp add: alignTimes_def)
  also have "\<dots> = (\<lambda>p. getTime (date p)) ` (set A \<union> set B)"
    unfolding dateMapOf_def setAll_keys by (auto simp: image_image)
  finally show "set (alignTimes A B) = (\<lambda>p. getTime (date p)) ` (set A \<union> set B)" .
qed

lemma alignTimes_eq:
  "alignTimes A B = sorted_list_of_set ((\<lambda>p. getTime (date p)) ` (set A \<union> set B))"
proof -
  have "sorted_list_of_set (set (alignTimes A B)) = alignTimes A B"
    using alignTimes_props(1,2) [of A B] by (simp add: sorted_list_of_set.idem_if_sorted_distinct)
  then show ?thesis unfolding alignTimes_props(3) by simp
qed

lemma alignSeries_eq:
  "alignSeries A B =
     (map (\<lambda>t. case mapGet (dateMapOf A B) t of Some l \<Rightarrow> l | None \<Rightarrow> []) (alignTimes A B),
      map (\<lambda>t. mapGet (valueMapOf A) t) (alignTimes A B),
      map (\<lambda>t. mapGet (valueMapOf B) t) (alignTimes A B))"
  by (simp add: alignSeries_def Let_def)

lemma mapGet_dateMapOf:
  "mapGet (dateMapOf A B) t =
     (case map_of (rev (map (\<lambda>p. (getTime (date p), label p)) B)) t of
        Some l \<Rightarrow> Some l
      | None \<Rightarrow> map_of (rev (map (\<lambda>p. (getTime (date p), label p)) A)) t)"
  by (simp add: dateMapOf_def mapGet_setAll split: option.splits)

lemma align_example:
  fixes d1 d2 d3 :: int
  assumes "d1 < d2" "d2 < d3"
  shows "alignSeries
           [\<lparr>label = l1, date = Date d1, val = 10 :: int\<rparr>, \<lparr>label = l2, date = Date d2, val = 20\<rparr>]
           [\<lparr>label = l2, date = Date d2, val = 30\<rparr>, \<lparr>label = l3, date = Date d3, val = 40\<rparr>]
         = ([l1, l2, l3], [Some 10, Some 20, None], [None, Some 30, Some 40])"
proof -
  let ?A = "[\<lparr>label = l1, date = Date d1, val = 10 :: int\<rparr>, \<lparr>label = l2, date = Date d2, val = 20\<rparr>]"
  let ?B = "[\<lparr>label = l2, date = Date d2, val = 30 :: int\<rparr>, \<lparr>label = l3, date = Date d3, val = 40\<rparr>]"
  have s: "(\<lambda>p :: int Point. getTime (date p)) ` (set ?A \<union> set ?B) = {d1, d2, d3}" by auto
  have t: "alignTimes ?A ?B = [d1, d2, d3]"
  proof (rule sorted_distinct_set_unique)
    show "sorted (alignTimes ?A ?B)" "distinct (alignTimes ?A ?B)"
      by (rule alignTimes_props)+
    show "sorted [d1, d2, d3]" "distinct [d1, d2, d3]" using assms by simp_all
    show "set (alignTimes ?A ?B) = set [d1, d2, d3]"
      unfolding alignTimes_props(3) s by simp
  qed
  show ?thesis
    unfolding alignSeries_eq t using assms
    by (simp add: mapGet_valueMapOf mapGet_dateMapOf)
qed

lemma foldl_skip:
  "foldl (\<lambda>t x. case f x of None \<Rightarrow> t | Some v \<Rightarrow> add t v) z xs = foldl add z (List.map_filter f xs)"
  by (induction xs arbitrary: z) (simp_all add: List.map_filter_def split: option.splits)

lemma foldl_zero:
  assumes "\<And>x. add x zero = x"
  shows "foldl (\<lambda>t x. case f x of None \<Rightarrow> t | Some v \<Rightarrow> add t v) z xs
         = foldl add z (map (\<lambda>x. case f x of None \<Rightarrow> zero | Some v \<Rightarrow> v) xs)"
  by (induction xs arbitrary: z) (simp_all add: assms split: option.splits)

lemma foldl_plus_sum_list: "foldl (+) (z :: 'm :: monoid_add) xs = z + sum_list xs"
  by (induction xs arbitrary: z) (simp_all add: add.assoc)

lemma columnTotal_skip:
  "columnTotal toNumber isFiniteNumber add zero rows col
   = foldl add zero (List.map_filter
       (\<lambda>r. parseScore toNumber isFiniteNumber (trim (cellAt (rows ! r) col))) [1 ..< length rows])"
  unfolding columnTotal_def by (rule foldl_skip)

lemma columnTotal_zero:
  assumes "\<And>x. add x zero = x"
  shows "columnTotal toNumber isFiniteNumber add zero rows col
   = foldl add zero (map
       (\<lambda>r. case parseScore toNumber isFiniteNumber (trim (cellAt (rows ! r) col)) of
               None \<Rightarrow> zero | Some v \<Rightarrow> v) [1 ..< length rows])"
  unfolding columnTotal_def using assms by (rule foldl_zero)

lemma columnTotal_sum:
  fixes toNumber :: "string \<Rightarrow> 'm :: monoid_add"
  shows "columnTotal toNumber isFiniteNumber (+) 0 rows col
   = sum_list (map
       (\<lambda>r. case parseScore toNumber isFiniteNumber (trim (cellAt (rows ! r) col)) of
               None \<Rightarrow> 0 | Some v \<Rightarrow> v) [1 ..< length rows])"
proof -
  have "columnTotal toNumber isFiniteNumber (+) 0 rows col
   = foldl (+) 0 (map
       (\<lambda>r. case parseScore toNumber isFiniteNumber (trim (cellAt (rows ! r) col)) of
               None \<Rightarrow> 0 | Some v \<Rightarrow> v) [1 ..< length rows])"
    by (rule columnTotal_zero) simp
  then show ?thesis by (simp add: foldl_plus_sum_list)
qed

lemma map_filter_as_map:
  "List.map_filter f xs = map (\<lambda>x. the (f x)) (filter (\<lambda>x. f x \<noteq> None) xs)"
  by (induction xs) (auto simp: List.map_filter_def)

lemma cumulativePoints_eq:
  "cumulativePoints toNumber isFiniteNumber add zero rows
   = map (\<lambda>col. \<lparr>label = trim (cellAt (headerOf rows) col),
                  date = the (parseSheetDate (trim (cellAt (headerOf rows) col))),
                  val = columnTotal toNumber isFiniteNumber add zero rows col\<rparr>)
       (filter (\<lambda>col. parseSheetDate (trim (cellAt (headerOf rows) col)) \<noteq> None)
          [1 ..< length (headerOf rows)])"
proof -
  let ?f = "cumulativePointAt toNumber isFiniteNumber add zero rows"
  have a: "\<And>col. (?f col \<noteq> None) = (parseSheetDate (trim (cellAt (headerOf rows) col)) \<noteq> None)"
    by (auto simp: cumulativePointAt_def Let_def split: option.splits)
  have b: "\<And>col. parseSheetDate (trim (cellAt (headerOf rows) col)) \<noteq> None \<Longrightarrow>
      the (?f col) = \<lparr>label = trim (cellAt (headerOf rows) col),
                  date = the (parseSheetDate (trim (cellAt (headerOf rows) col))),
                  val = columnTotal toNumber isFiniteNumber add zero rows col\<rparr>"
    by (auto simp: cumulativePointAt_def Let_def split: option.splits)
  show ?thesis
    unfolding cumulativePoints_def map_filter_as_map a
    by (rule map_cong) (simp_all add: b)
qed

lemma cumulative_eq:
  "cumulative toNumber isFiniteNumber add zero rows =
     (if length rows < 2
      then Inl ''Sheet does not have enough data to build a cumulative chart yet.''
      else if cumulativePoints toNumber isFiniteNumber add zero rows = []
      then Inl ''No dated score columns found in the sheet.''
      else Inr (map label (sortByTime (cumulativePoints toNumber isFiniteNumber add zero rows)),
                map val (sortByTime (cumulativePoints toNumber isFiniteNumber add zero rows))))"
  by (simp add: cumulative_def Let_def)

section \<open>Extraction of one player's series\<close>

text \<open>
  Claim C6. \<open>getUserPoints\<close> resolves the requested name by equality of the normalized forms
  only: it returns nothing exactly when no data row has a name whose normalized form is the
  normalized input, and \<open>normalizeUsername\<close> is the normalization of the ledger
  (\<open>normalizeName\<close>). There is no fuzzy fallback: for the name \<open>bo\<close> and the single row
  \<open>Bob\<close> the extraction finds nothing, where \<open>findRowByName\<close> resolves the row. For the
  resolved row (the first one that matches) the points are exactly those of the columns
  \<open>col \<ge> 1\<close> of the header whose trimmed header cell parses as a date and whose trimmed cell
  of the row parses as a score, one point per such column, with the parsed date, the parsed
  value and the trimmed header as label; a column that fails either parse gives no point.
  The points are sorted ascending by the time of their date. A cell parses as a score
  exactly when, without its commas and trimmed, it is not empty and its number is finite.
\<close>

theorem getUserPoints_exact_and_filtered:
  fixes toNumber :: "string \<Rightarrow> 'n"
  shows
  "(getUserPoints toNumber isFiniteNumber rows username = None \<longleftrightarrow>
      \<not> (\<exists>r \<in> set (tl rows). normalizeUsername (cellAt r 0) = normalizeUsername username))
   \<and> (\<forall>res. getUserPoints toNumber isFiniteNumber rows username = Some res \<longrightarrow>
        (\<exists>targetRow.
           find (\<lambda>r. normalizeUsername (cellAt r 0) = normalizeUsername username) (tl rows)
             = Some targetRow
           \<and> displayName res = (if 0 < length targetRow then targetRow ! 0 else ''undefined'')
           \<and> points res = sortByTime (List.map_filter
                 (userPointAt toNumber isFiniteNumber (headerOf rows) targetRow)
                 [1 ..< length (headerOf rows)])
           \<and> (\<forall>p :: 'n Point. p \<in> set (points res) \<longleftrightarrow>
                 (\<exists>col. 1 \<le> col \<and> col < length (headerOf rows)
                    \<and> parseSheetDate (trim (cellAt (headerOf rows) col)) = Some (date p)
                    \<and> parseScore toNumber isFiniteNumber (trim (cellAt targetRow col)) = Some (val p)
                    \<and> label p = trim (cellAt (headerOf rows) col)))
           \<and> length (points res)
               = length (filter (\<lambda>col. parseSheetDate (trim (cellAt (headerOf rows) col)) \<noteq> None
                     \<and> parseScore toNumber isFiniteNumber (trim (cellAt targetRow col)) \<noteq> None)
                   [1 ..< length (headerOf rows)])
           \<and> sorted (map (\<lambda>p. getTime (date p)) (points res))))
   \<and> (parseScore toNumber isFiniteNumber raw = Some v \<longleftrightarrow>
        trim (filter (\<lambda>c. c \<noteq> CHR '','') raw) \<noteq> []
        \<and> isFiniteNumber (toNumber (trim (filter (\<lambda>c. c \<noteq> CHR '','') raw)))
        \<and> v = toNumber (trim (filter (\<lambda>c. c \<noteq> CHR '','') raw)))
   \<and> normalizeUsername username = normalizeName username
   \<and> getUserPoints exampleNumber exampleFinite
         [[''Name'', ''3/1/24''], [''Bob'', ''5'']] ''bo'' = None
   \<and> findRowByName [(''bob'', 1)] ''bo'' = Some 1"
proof -
  have a: "getUserPoints toNumber isFiniteNumber rows username = None \<longleftrightarrow>
      \<not> (\<exists>r \<in> set (tl rows). normalizeUsername (cellAt r 0) = normalizeUsername username)"
    by (rule getUserPoints_None_iff)
  have b: "\<forall>res. getUserPoints toNumber isFiniteNumber rows username = Some res \<longrightarrow>
        (\<exists>targetRow.
           find (\<lambda>r. normalizeUsername (cellAt r 0) = normalizeUsername username) (tl rows)
             = Some targetRow
           \<and> displayName res = (if 0 < length targetRow then targetRow ! 0 else ''undefined'')
           \<and> points res = sortByTime (List.map_filter
                 (userPointAt toNumber isFiniteNumber (headerOf rows) targetRow)
                 [1 ..< length (headerOf rows)])
           \<and> (\<forall>p :: 'n Point. p \<in> set (points res) \<longleftrightarrow>
                 (\<exists>col. 1 \<le> col \<and> col < length (headerOf rows)
                    \<and> parseSheetDate (trim (cellAt (headerOf rows) col)) = Some (date p)
                    \<and> parseScore toNumber isFiniteNumber (trim (cellAt targetRow col)) = Some (val p)
                    \<and> label p = trim (cellAt (headerOf rows) col)))
           \<and> length (points res)
               = length (filter (\<lambda>col. parseSheetDate (trim (cellAt (headerOf rows) col)) \<noteq> None
                     \<and> parseScore toNumber isFiniteNumber (trim (cellAt targetRow col)) \<noteq> None)
                   [1 ..< length (headerOf rows)])
           \<and> sorted (map (\<lambda>p. getTime (date p)) (points res)))"
    using getUserPoints_Some by blast
  have c: "parseScore toNumber isFiniteNumber raw = Some v \<longleftrightarrow>
        trim (filter (\<lambda>c. c \<noteq> CHR '','') raw) \<noteq> []
        \<and> isFiniteNumber (toNumber (trim (filter (\<lambda>c. c \<noteq> CHR '','') raw)))
        \<and> v = toNumber (trim (filter (\<lambda>c. c \<noteq> CHR '','') raw))"
    by (rule parseScore_Some_iff)
  have d: "normalizeUsername username = normalizeName username"
    by (simp add: normalizeUsername_def normalizeName_def)
  have e: "getUserPoints exampleNumber exampleFinite
         [[''Name'', ''3/1/24''], [''Bob'', ''5'']] ''bo'' = None"
    by code_simp
  have f: "findRowByName [(''bob'', 1)] ''bo'' = Some 1" by code_simp
  show ?thesis by (intro conjI a b c d e f)
qed

theorem getUserPoints_exact_and_filtered_witness:
  "getUserPoints exampleNumber exampleFinite
     [[''Name'', ''3/8/24'', ''note'', ''3/1/24'', ''3/15/24''],
      [''Al'', ''1'', ''2'', ''3'', ''4''],
      [''  Bob   Lee '', ''5'', ''1'', ''1,000'', '''']] ''bob lee''
   = Some \<lparr>displayName = ''  Bob   Lee '',
            points = [\<lparr>label = ''3/1/24'', date = Date 1709251200000, val = Some 1000\<rparr>,
                      \<lparr>label = ''3/8/24'', date = Date 1709856000000, val = Some 5\<rparr>]\<rparr>
   \<and> sorted [1709251200000 :: int, 1709856000000]"
proof -
  let ?rows = "[[''Name'', ''3/8/24'', ''note'', ''3/1/24'', ''3/15/24''],
      [''Al'', ''1'', ''2'', ''3'', ''4''],
      [''  Bob   Lee '', ''5'', ''1'', ''1,000'', '''']]"
  let ?res = "\<lparr>displayName = ''  Bob   Lee '',
            points = [\<lparr>label = ''3/1/24'', date = Date 1709251200000, val = Some (1000 :: int)\<rparr>,
                      \<lparr>label = ''3/8/24'', date = Date 1709856000000, val = Some 5\<rparr>]\<rparr>"
  have e: "getUserPoints exampleNumber exampleFinite ?rows ''bob lee'' = Some ?res"
    by code_simp
  from getUserPoints_exact_and_filtered
         [where toNumber = exampleNumber and isFiniteNumber = exampleFinite
            and rows = ?rows and username = "''bob lee''",
          THEN conjunct2, THEN conjunct1, rule_format, OF e]
  obtain targetRow where "sorted (map (\<lambda>p. getTime (date p)) (points ?res))" by blast
  then have "sorted [1709251200000 :: int, 1709856000000]" by simp
  with e show ?thesis by (rule conjI)
qed

section \<open>Alignment of two series\<close>

text \<open>
  Claim C7. The dates of the aligned series are the union of the dates of the two series,
  without repetition and sorted ascending. The aligned value of a series at a date is
  \<open>None\<close>, the absent marker, exactly when no point of the series has that date; otherwise
  it is the value of a point of the series at that date (of the last such point if there
  are several, of the only one when the dates of the series are distinct). The label of a
  date is the label of the second series' point when it has one, of the first series'
  otherwise. For \<open>A = [(d1,10),(d2,20)]\<close> and \<open>B = [(d2,30),(d3,40)]\<close> with
  \<open>d1 < d2 < d3\<close> the labels are those of \<open>d1, d2, d3\<close> in this order, the values of \<open>A\<close>
  are \<open>[10, 20, absent]\<close> and those of \<open>B\<close> are \<open>[absent, 30, 40]\<close>.
\<close>

theorem alignSeries_union_sorted_gaps:
  fixes A B ps :: "'n Point list" and da db dc :: int
  shows
  "alignSeries A B =
     (map (\<lambda>t. case mapGet (dateMapOf A B) t of Some l \<Rightarrow> l | None \<Rightarrow> []) (alignTimes A B),
      map (\<lambda>t. mapGet (valueMapOf A) t) (alignTimes A B),
      map (\<lambda>t. mapGet (valueMapOf B) t) (alignTimes A B))
   \<and> alignTimes A B = sorted_list_of_set ((\<lambda>p. getTime (date p)) ` (set A \<union> set B))
   \<and> sorted (alignTimes A B) \<and> distinct (alignTimes A B)
   \<and> set (alignTimes A B) = (\<lambda>p. getTime (date p)) ` (set A \<union> set B)
   \<and> (mapGet (valueMapOf ps) t = None \<longleftrightarrow> t \<notin> (\<lambda>p. getTime (date p)) ` set ps)
   \<and> (\<forall>v. mapGet (valueMapOf ps) t = Some v \<longrightarrow>
         (\<exists>p \<in> set ps. getTime (date p) = t \<and> val p = v))
   \<and> (distinct (map (\<lambda>p. getTime (date p)) ps) \<longrightarrow>
         (\<forall>p \<in> set ps. mapGet (valueMapOf ps) (getTime (date p)) = Some (val p)))
   \<and> mapGet (valueMapOf ps) t = map_of (rev (map (\<lambda>p. (getTime (date p), val p)) ps)) t
   \<and> mapGet (dateMapOf A B) t =
       (case map_of (rev (map (\<lambda>p. (getTime (date p), label p)) B)) t of
          Some l \<Rightarrow> Some l
        | None \<Rightarrow> map_of (rev (map (\<lambda>p. (getTime (date p), label p)) A)) t)
   \<and> (da < db \<and> db < dc \<longrightarrow>
        alignSeries
          [\<lparr>label = la, date = Date da, val = 10 :: int\<rparr>, \<lparr>label = lb, date = Date db, val = 20\<rparr>]
          [\<lparr>label = lb, date = Date db, val = 30\<rparr>, \<lparr>label = lc, date = Date dc, val = 40\<rparr>]
        = ([la, lb, lc], [Some 10, Some 20, None], [None, Some 30, Some 40]))"
proof -
  have a: "alignSeries A B =
     (map (\<lambda>t. case mapGet (dateMapOf A B) t of Some l \<Rightarrow> l | None \<Rightarrow> []) (alignTimes A B),
      map (\<lambda>t. mapGet (valueMapOf A) t) (alignTimes A B),
      map (\<lambda>t. mapGet (valueMapOf B) t) (alignTimes A B))"
    by (rule alignSeries_eq)
  have b: "alignTimes A B = sorted_list_of_set ((\<lambda>p. getTime (date p)) ` (set A \<union> set B))"
    by (rule alignTimes_eq)
  have c: "sorted (alignTimes A B)" by (rule alignTimes_props)
  have d: "distinct (alignTimes A B)" by (rule alignTimes_props)
  have e: "set (alignTimes A B) = (\<lambda>p. getTime (date p)) ` (set A \<union> set B)"
    by (rule alignTimes_props)
  have f: "mapGet (valueMapOf ps) t = None \<longleftrightarrow> t \<notin> (\<lambda>p. getTime (date p)) ` set ps"
    by (rule mapGet_valueMapOf_None)
  have g: "\<forall>v. mapGet (valueMapOf ps) t = Some v \<longrightarrow>
         (\<exists>p \<in> set ps. getTime (date p) = t \<and> val p = v)"
    by (intro allI impI) (rule mapGet_valueMapOf_Some)
  have h: "distinct (map (\<lambda>p. getTime (date p)) ps) \<longrightarrow>
         (\<forall>p \<in> set ps. mapGet (valueMapOf ps) (getTime (date p)) = Some (val p))"
    by (intro impI ballI) (rule mapGet_valueMapOf_distinct)
  have i: "mapGet (valueMapOf ps) t = map_of (rev (map (\<lambda>p. (getTime (date p), val p)) ps)) t"
    by (rule mapGet_valueMapOf)
  have j: "mapGet (dateMapOf A B) t =
       (case map_of (rev (map (\<lambda>p. (getTime (date p), label p)) B)) t of
          Some l \<Rightarrow> Some l
        | None \<Rightarrow> map_of (rev (map (\<lambda>p. (getTime (date p), label p)) A)) t)"
    by (rule mapGet_dateMapOf)
  have k: "da < db \<and> db < dc \<longrightarrow>
        alignSeries
          [\<lparr>label = la, date = Date da, val = 10 :: int\<rparr>, \<lparr>label = lb, date = Date db, val = 20\<rparr>]
          [\<lparr>label = lb, date = Date db, val = 30\<rparr>, \<lparr>label = lc, date = Date dc, val = 40\<rparr>]
        = ([la, lb, lc], [Some 10, Some 20, None], [None, Some 30, Some 40])"
    by (intro impI, rule align_example) simp_all
  show ?thesis by (intro conjI a b c d e f g h i j k)
qed

theorem alignSeries_union_sorted_gaps_witness:
  "(1709251200000 :: int) < 1709856000000 \<and> (1709856000000 :: int) < 1710460800000
   \<and> alignSeries
       [\<lparr>label = ''3/1/24'', date = Date 1709251200000, val = 10 :: int\<rparr>,
        \<lparr>label = ''3/8/24'', date = Date 1709856000000, val = 20\<rparr>]
       [\<lparr>label = ''3/8/24'', date = Date 1709856000000, val = 30\<rparr>,
        \<lparr>label = ''3/15/24'', date = Date 1710460800000, val = 40\<rparr>]
     = ([''3/1/24'', ''3/8/24'', ''3/15/24''], [Some 10, Some 20, None], [None, Some 30, Some 40])
   \<and> distinct (map (\<lambda>p. getTime (date p))
       [\<lparr>label = ''3/1/24'', date = Date 1709251200000, val = 10 :: int\<rparr>,
        \<lparr>label = ''3/8/24'', date = Date 1709856000000, val = 20\<rparr>])
   \<and> mapGet (valueMapOf
       [\<lparr>label = ''3/1/24'', date = Date 1709251200000, val = 10 :: int\<rparr>,
        \<lparr>label = ''3/8/24'', date = Date 1709856000000, val = 20\<rparr>]) 1709856000000 = Some 20"
proof -
  let ?A = "[\<lparr>label = ''3/1/24'', date = Date 1709251200000, val = 10 :: int\<rparr>,
        \<lparr>label = ''3/8/24'', date = Date 1709856000000, val = 20\<rparr>]"
  note t = alignSeries_union_sorted_gaps
         [where ps = ?A and da = 1709251200000 and db = 1709856000000 and dc = 1710460800000
            and la = "''3/1/24''" and lb = "''3/8/24''" and lc = "''3/15/24''"]
  have o: "(1709251200000 :: int) < 1709856000000 \<and> (1709856000000 :: int) < 1710460800000"
    by simp
  have d: "distinct (map (\<lambda>p. getTime (date p)) ?A)" by simp
  have m: "\<lparr>label = ''3/8/24'', date = Date 1709856000000, val = 20 :: int\<rparr> \<in> set ?A" by simp
  note k = t [THEN conjunct2, THEN conjunct2, THEN conjunct2, THEN conjunct2, THEN conjunct2,
              THEN conjunct2, THEN conjunct2, THEN conjunct2, THEN conjunct2]
  note ex = k [THEN conjunct2, rule_format, OF o]
  note h = t [THEN conjunct2, THEN conjunct2, THEN conjunct2, THEN conjunct2, THEN conjunct2,
              THEN conjunct2, THEN conjunct2, THEN conjunct1, rule_format, OF d m]
  from h have v: "mapGet (valueMapOf ?A) 1709856000000 = Some 20" by simp
  show ?thesis using o ex d v by (intro conjI) simp_all
qed

section \<open>Cumulative totals\<close>

text \<open>
  Claim C8. The cumulative branch answers with a reply when the sheet has fewer than two
  rows or no dated column; otherwise its points, before sorting, are one point per header
  column \<open>col \<ge> 1\<close> whose trimmed label parses as a date, in column order, with the total of the
  column as value, and the chart receives them sorted ascending by the time of the date
  (the same points, reordered). The total of a column is the sum, from \<open>0\<close> and in row
  order, of the cells of the data rows that parse as a score; the cells that do not parse
  are left out, which is the same as adding \<open>0\<close> for them whenever \<open>x + 0 = x\<close>; over any
  monoid it is the sum of the list of the parsed values with \<open>0\<close> for the others. In the
  example the column \<open>3/8/24\<close> holds \<open>5\<close>, \<open>x\<close> and \<open>7\<close> and totals \<open>12\<close>, the column
  \<open>3/1/24\<close> holds a blank, \<open>1,000\<close> and a missing cell and totals \<open>1000\<close>, whereas the
  extraction of Bob's series has no point for \<open>3/1/24\<close>, where Bob's cell is blank.
\<close>

theorem cumulative_sums_dated_columns:
  fixes toNumber :: "string \<Rightarrow> 'n" and toNumberM :: "string \<Rightarrow> 'm :: monoid_add"
  shows
  "cumulative toNumber isFiniteNumber add zero rows =
     (if length rows < 2
      then Inl ''Sheet does not have enough data to build a cumulative chart yet.''
      else if cumulativePoints toNumber isFiniteNumber add zero rows = []
      then Inl ''No dated score columns found in the sheet.''
      else Inr (map label (sortByTime (cumulativePoints toNumber isFiniteNumber add zero rows)),
                map val (sortByTime (cumulativePoints toNumber isFiniteNumber add zero rows))))
   \<and> cumulativePoints toNumber isFiniteNumber add zero rows
     = map (\<lambda>col. \<lparr>label = trim (cellAt (headerOf rows) col),
                    date = the (parseSheetDate (trim (cellAt (headerOf rows) col))),
                    val = columnTotal toNumber isFiniteNumber add zero rows col\<rparr>)
         (filter (\<lambda>col. parseSheetDate (trim (cellAt (headerOf rows) col)) \<noteq> None)
            [1 ..< length (headerOf rows)])
   \<and> sorted (map (\<lambda>p. getTime (date p))
        (sortByTime (cumulativePoints toNumber isFiniteNumber add zero rows)))
   \<and> mset (sortByTime (cumulativePoints toNumber isFiniteNumber add zero rows))
     = mset (cumulativePoints toNumber isFiniteNumber add zero rows)
   \<and> columnTotal toNumber isFiniteNumber add zero rows col
     = foldl add zero (List.map_filter
         (\<lambda>r. parseScore toNumber isFiniteNumber (trim (cellAt (rows ! r) col)))
         [1 ..< length rows])
   \<and> ((\<forall>x. add x zero = x) \<longrightarrow>
        columnTotal toNumber isFiniteNumber add zero rows col
        = foldl add zero (map
            (\<lambda>r. case parseScore toNumber isFiniteNumber (trim (cellAt (rows ! r) col)) of
                    None \<Rightarrow> zero | Some v \<Rightarrow> v) [1 ..< length rows]))
   \<and> columnTotal toNumberM isFiniteNumberM (+) 0 rows col
     = sum_list (map
         (\<lambda>r. case parseScore toNumberM isFiniteNumberM (trim (cellAt (rows ! r) col)) of
                 None \<Rightarrow> 0 | Some v \<Rightarrow> v) [1 ..< length rows])
   \<and> cumulative exampleNumber exampleFinite exampleAdd (Some 0)
       [[''Name'', ''3/8/24'', ''note'', ''3/1/24''],
        [''Bob'', ''5'', ''1'', ''''],
        [''Al'', ''x'', ''2'', ''1,000''],
        [''Cy'', ''7'']]
     = Inr ([''3/1/24'', ''3/8/24''], [Some 1000, Some 12])
   \<and> map_option points (getUserPoints exampleNumber exampleFinite
       [[''Name'', ''3/8/24'', ''note'', ''3/1/24''],
        [''Bob'', ''5'', ''1'', ''''],
        [''Al'', ''x'', ''2'', ''1,000''],
        [''Cy'', ''7'']] ''bob'')
     = Some [\<lparr>label = ''3/8/24'', date = Date 1709856000000, val = Some 5\<rparr>]"
proof -
  have a: "cumulative toNumber isFiniteNumber add zero rows =
     (if length rows < 2
      then Inl ''Sheet does not have enough data to build a cumulative chart yet.''
      else if cumulativePoints toNumber isFiniteNumber add zero rows = []
      then Inl ''No dated score columns found in the sheet.''
      else Inr (map label (sortByTime (cumulativePoints toNumber isFiniteNumber add zero rows)),
                map val (sortByTime (cumulativePoints toNumber isFiniteNumber add zero rows))))"
    by (rule cumulative_eq)
  have b: "cumulativePoints toNumber isFiniteNumber add zero rows
     = map (\<lambda>col. \<lparr>label = trim (cellAt (headerOf rows) col),
                    date = the (parseSheetDate (trim (cellAt (headerOf rows) col))),
                    val = columnTotal toNumber isFiniteNumber add zero rows col\<rparr>)
         (filter (\<lambda>col. parseSheetDate (trim (cellAt (headerOf rows) col)) \<noteq> None)
            [1 ..< length (headerOf rows)])"
    by (rule cumulativePoints_eq)
  have c: "sorted (map (\<lambda>p. getTime (date p))
        (sortByTime (cumulativePoints toNumber isFiniteNumber add zero rows)))"
    by (rule sortByTime_props)
  have d: "mset (sortByTime (cumulativePoints toNumber isFiniteNumber add zero rows))
     = mset (cumulativePoints toNumber isFiniteNumber add zero rows)"
    by (rule sortByTime_props)
  have e: "columnTotal toNumber isFiniteNumber add zero rows col
     = foldl add zero (List.map_filter
         (\<lambda>r. parseScore toNumber isFiniteNumber (trim (cellAt (rows ! r) col)))
         [1 ..< length rows])"
    by (rule columnTotal_skip)
  have f: "(\<forall>x. add x zero = x) \<longrightarrow>
        columnTotal toNumber isFiniteNumber add zero rows col
        = foldl add zero (map
            (\<lambda>r. case parseScore toNumber isFiniteNumber (trim (cellAt (rows ! r) col)) of
                    None \<Rightarrow> zero | Some v \<Rightarrow> v) [1 ..< length rows])"
  proof
    assume "\<forall>x. add x zero = x"
    then have "\<And>x. add x zero = x" by simp
    then show "columnTotal toNumber isFiniteNumber add zero rows col
        = foldl add zero (map
            (\<lambda>r. case parseScore toNumber isFiniteNumber (trim (cellAt (rows ! r) col)) of
                    None \<Rightarrow> zero | Some v \<Rightarrow> v) [1 ..< length rows])"
      by (rule columnTotal_zero)
  qed
  have g: "columnTotal toNumberM isFiniteNumberM (+) 0 rows col
     = sum_list (map
         (\<lambda>r. case parseScore toNumberM isFiniteNumberM (trim (cellAt (rows ! r) col)) of
                 None \<Rightarrow> 0 | Some v \<Rightarrow> v) [1 ..< length rows])"
    by (rule columnTotal_sum)
  have h: "cumulative exampleNumber exampleFinite exampleAdd (Some 0)
       [[''Name'', ''3/8/24'', ''note'', ''3/1/24''],
        [''Bob'', ''5'', ''1'', ''''],
        [''Al'', ''x'', ''2'', ''1,000''],
        [''Cy'', ''7'']]
     = Inr ([''3/1/24'', ''3/8/24''], [Some 1000, Some 12])"
    by code_simp
  have i: "map_option points (getUserPoints exampleNumber exampleFinite
       [[''Name'', ''3/8/24'', ''note'', ''3/1/24''],
        [''Bob'', ''5'', ''1'', ''''],
        [''Al'', ''x'', ''2'', ''1,000''],
        [''Cy'', ''7'']] ''bob'')
     = Some [\<lparr>label = ''3/8/24'', date = Date 1709856000000, val = Some 5\<rparr>]"
    by code_simp
  show ?thesis by (intro conjI a b c d e f g h i)
qed

theorem cumulative_sums_dated_columns_witness:
  "(\<forall>x. exampleAdd x (Some 0) = x)
   \<and> columnTotal exampleNumber exampleFinite exampleAdd (Some 0)
       [[''Name'', ''3/8/24'', ''note'', ''3/1/24''],
        [''Bob'', ''5'', ''1'', ''''],
        [''Al'', ''x'', ''2'', ''1,000''],
        [''Cy'', ''7'']] 1
     = foldl exampleAdd (Some 0) [Some 5, Some 0, Some 7]
   \<and> foldl exampleAdd (Some 0) [Some 5, Some 0, Some 7] = Some 12"
proof -
  let ?rows = "[[''Name'', ''3/8/24'', ''note'', ''3/1/24''],
        [''Bob'', ''5'', ''1'', ''''],
        [''Al'', ''x'', ''2'', ''1,000''],
        [''Cy'', ''7'']]"
  have z: "\<forall>x. exampleAdd x (Some 0) = x"
    by (auto simp: exampleAdd_def split: option.splits)
  note t = cumulative_sums_dated_columns
         [where toNumber = exampleNumber and isFiniteNumber = exampleFinite
            and add = exampleAdd and zero = "Some 0" and rows = ?rows and col = 1,
          THEN conjunct2, THEN conjunct2, THEN conjunct2, THEN conjunct2, THEN conjunct2,
          THEN conjunct1, THEN mp, OF z]
  have m: "map (\<lambda>r. case parseScore exampleNumber exampleFinite (trim (cellAt (?rows ! r) 1)) of
                    None \<Rightarrow> Some 0 | Some v \<Rightarrow> v) [1 ..< length ?rows]
           = [Some 5, Some 0, Some 7]"
    by code_simp
  have c: "columnTotal exampleNumber exampleFinite exampleAdd (Some 0) ?rows 1
     = foldl exampleAdd (Some 0) [Some 5, Some 0, Some 7]"
    using t unfolding m .
  have s: "foldl exampleAdd (Some 0) [Some 5, Some 0, Some 7] = Some 12"
    by code_simp
  show ?thesis by (intro conjI z c s)
qed

end
